theory Spec2Isabelle
  imports Complex_Main
begin

section \<open>C values, faults and memory\<close>

text \<open>
  The programs are C. A run of a C function either returns, or stops in undefined
  behaviour (an access outside a block, a null pointer, a signed overflow), or does not
  return. An outcome is therefore \<open>None\<close> (the run does not return), \<open>Some (Inl f)\<close>
  (the run stops with the fault \<open>f\<close>) or \<open>Some (Inr s)\<close> (the run returns in state \<open>s\<close>).
\<close>

datatype fault = OutOfBounds | NullPointer | IntOverflow

type_synonym 's outcome = "(fault + 's) option"

text \<open>
  A C \<open>int\<close> is a 32-bit signed integer. It is modelled by a mathematical integer, and
  every addition the code performs on it is checked against the range: leaving the range
  is the fault \<open>IntOverflow\<close>.
\<close>

definition INT_MAX :: int where
  "INT_MAX = 2147483647"

definition INT_MIN :: int where
  "INT_MIN = - 2147483648"

definition add_int :: "int \<Rightarrow> int \<Rightarrow> fault + int" where
  "add_int a b =
     (if INT_MIN \<le> a + b \<and> a + b \<le> INT_MAX then Inr (a + b) else Inl IntOverflow)"

text \<open>
  Memory is typed. \<open>tables\<close> holds the blocks of row pointers (\<open>double *\<close> elements; what
  a \<open>double **\<close> points to) and \<open>rows\<close> holds the blocks of elements (what a \<open>double *\<close>
  points to). A pointer is null or names a block by its position. The element type \<open>'a\<close>
  stands for \<open>double\<close>: the multiplication kernels use only its \<open>+\<close> and \<open>*\<close>, and nothing
  is assumed about them (neither associativity nor commutativity), so every result about
  the kernels holds for IEEE arithmetic as it holds for exact arithmetic.
\<close>

datatype ptr = Null | Ptr nat

record 'a memory =
  tables :: "ptr list list"
  rows :: "'a list list"

definition load_ptr :: "'a memory \<Rightarrow> ptr \<Rightarrow> int \<Rightarrow> fault + ptr" where
  "load_ptr m M i =
     (case M of
        Null \<Rightarrow> Inl NullPointer
      | Ptr t \<Rightarrow>
          if t < length (tables m) \<and> 0 \<le> i \<and> i < int (length (tables m ! t))
          then Inr (tables m ! t ! nat i)
          else Inl OutOfBounds)"

definition load_elem :: "'a memory \<Rightarrow> ptr \<Rightarrow> int \<Rightarrow> fault + 'a" where
  "load_elem m p j =
     (case p of
        Null \<Rightarrow> Inl NullPointer
      | Ptr r \<Rightarrow>
          if r < length (rows m) \<and> 0 \<le> j \<and> j < int (length (rows m ! r))
          then Inr (rows m ! r ! nat j)
          else Inl OutOfBounds)"

definition store_elem :: "'a memory \<Rightarrow> ptr \<Rightarrow> int \<Rightarrow> 'a \<Rightarrow> fault + 'a memory" where
  "store_elem m p j v =
     (case p of
        Null \<Rightarrow> Inl NullPointer
      | Ptr r \<Rightarrow>
          if r < length (rows m) \<and> 0 \<le> j \<and> j < int (length (rows m ! r))
          then Inr (m\<lparr>rows := (rows m)[r := (rows m ! r)[nat j := v]]\<rparr>)
          else Inl OutOfBounds)"

text \<open>\<open>M[i][j]\<close> as an rvalue, and the assignment \<open>M[i][j] = v\<close>.\<close>

definition read2 :: "'a memory \<Rightarrow> ptr \<Rightarrow> int \<Rightarrow> int \<Rightarrow> fault + 'a" where
  "read2 m M i j =
     (case load_ptr m M i of Inl f \<Rightarrow> Inl f | Inr p \<Rightarrow> load_elem m p j)"

definition write2 :: "'a memory \<Rightarrow> ptr \<Rightarrow> int \<Rightarrow> int \<Rightarrow> 'a \<Rightarrow> fault + 'a memory" where
  "write2 m M i j v =
     (case load_ptr m M i of Inl f \<Rightarrow> Inl f | Inr p \<Rightarrow> store_elem m p j v)"

section \<open>Loops\<close>

text \<open>
  \<open>for (int v = lo; v < hi; v += step) body\<close>, with \<open>hi\<close> and \<open>step\<close> not assigned by the
  body. With \<open>step \<le> 0\<close> the C loop need not end, so the loop is a partial function.
\<close>

partial_function (option) for_loop ::
  "int \<Rightarrow> int \<Rightarrow> int \<Rightarrow> (int \<Rightarrow> 's \<Rightarrow> (fault + 's) option) \<Rightarrow> 's \<Rightarrow> (fault + 's) option"
where
  "for_loop v hi step body s =
     (if v < hi then
        (case body v s of
           None \<Rightarrow> None
         | Some (Inl f) \<Rightarrow> Some (Inl f)
         | Some (Inr s') \<Rightarrow>
             (case add_int v step of
                Inl f \<Rightarrow> Some (Inl f)
              | Inr v' \<Rightarrow> for_loop v' hi step body s'))
      else Some (Inr s))"

declare for_loop.simps [code]

text \<open>
  A loop whose bound is an expression that can itself overflow: the bound is evaluated
  before the first test.
\<close>

definition for_loop_to ::
  "int \<Rightarrow> fault + int \<Rightarrow> int \<Rightarrow> (int \<Rightarrow> 's \<Rightarrow> (fault + 's) option) \<Rightarrow> 's \<Rightarrow> (fault + 's) option"
where
  "for_loop_to lo bound step body s =
     (case bound of Inl f \<Rightarrow> Some (Inl f) | Inr hi \<Rightarrow> for_loop lo hi step body s)"

section \<open>The multiplication kernels of mxm_bloc.c\<close>

text \<open>\<open>int min(int a, int b) { return (a < b) ? a : b; }\<close>\<close>

definition min_c :: "int \<Rightarrow> int \<Rightarrow> int" where
  "min_c a b = (if a < b then a else b)"

text \<open>\<open>min(off + block_size, n)\<close>, the bound of a tile loop.\<close>

definition tile_end :: "int \<Rightarrow> int \<Rightarrow> int \<Rightarrow> fault + int" where
  "tile_end off block_size n =
     (case add_int off block_size of Inl f \<Rightarrow> Inl f | Inr t \<Rightarrow> Inr (min_c t n))"

text \<open>The statement \<open>C[i][j] += A[i][k] * B[k][j];\<close> of both kernels.\<close>

definition mac ::
  "ptr \<Rightarrow> ptr \<Rightarrow> ptr \<Rightarrow> int \<Rightarrow> int \<Rightarrow> int \<Rightarrow> ('a::{plus,times}) memory \<Rightarrow> fault + 'a memory"
where
  "mac A B C i k j m =
     (case read2 m C i j of
        Inl f \<Rightarrow> Inl f
      | Inr c \<Rightarrow>
          (case read2 m A i k of
             Inl f \<Rightarrow> Inl f
           | Inr a \<Rightarrow>
               (case read2 m B k j of
                  Inl f \<Rightarrow> Inl f
                | Inr b \<Rightarrow> write2 m C i j (c + a * b))))"

definition matrix_multiply_blocked ::
  "ptr \<Rightarrow> ptr \<Rightarrow> ptr \<Rightarrow> int \<Rightarrow> int \<Rightarrow> ('a::{plus,times}) memory \<Rightarrow> 'a memory outcome"
where
  "matrix_multiply_blocked A B C n block_size =
     for_loop 0 n block_size (\<lambda>ii.
       for_loop 0 n block_size (\<lambda>jj.
         for_loop 0 n block_size (\<lambda>kk.
           for_loop_to ii (tile_end ii block_size n) 1 (\<lambda>i.
             for_loop_to kk (tile_end kk block_size n) 1 (\<lambda>k.
               for_loop_to jj (tile_end jj block_size n) 1 (\<lambda>j m.
                 Some (mac A B C i k j m)))))))"

definition matrix_multiply_standard ::
  "ptr \<Rightarrow> ptr \<Rightarrow> ptr \<Rightarrow> int \<Rightarrow> ('a::{plus,times}) memory \<Rightarrow> 'a memory outcome"
where
  "matrix_multiply_standard A B C n =
     for_loop 0 n 1 (\<lambda>i.
       for_loop 0 n 1 (\<lambda>k.
         for_loop 0 n 1 (\<lambda>j m.
           Some (mac A B C i k j m))))"

section \<open>Vocabulary for stating what the kernels do\<close>

text \<open>
  The values a loop counter takes in \<open>for (v = lo; v < hi; v += step)\<close> when nothing
  overflows, in order; and running a loop body over a list of counter values.
\<close>

function loop_values :: "int \<Rightarrow> int \<Rightarrow> int \<Rightarrow> int list" where
  "loop_values v hi step =
     (if 0 < step \<and> v < hi then v # loop_values (v + step) hi step else [])"
  by pat_completeness auto
termination
  by (relation "measure (\<lambda>(v, hi, step). nat (hi - v))") auto

declare loop_values.simps [simp del]

fun run_list :: "('x \<Rightarrow> 's \<Rightarrow> (fault + 's) option) \<Rightarrow> 'x list \<Rightarrow> 's \<Rightarrow> (fault + 's) option" where
  "run_list body [] s = Some (Inr s)"
| "run_list body (x # xs) s =
     (case body x s of
        None \<Rightarrow> None
      | Some (Inl f) \<Rightarrow> Some (Inl f)
      | Some (Inr s') \<Rightarrow> run_list body xs s')"

text \<open>
  The value of a block counter after its last increment, \<open>step * \<lceil>n / step\<rceil>\<close>: the
  largest value the C code computes from \<open>n\<close> and \<open>block_size\<close>.
\<close>

definition last_counter :: "int \<Rightarrow> int \<Rightarrow> int" where
  "last_counter n step = step * ((n + step - 1) div step)"

text \<open>
  One execution of the statement \<open>C[i][j] += A[i][k] * B[k][j]\<close> is named by its index
  triple \<open>(i, k, j)\<close>. \<open>standard_order\<close> and \<open>blocked_order\<close> list the triples in the
  order in which the two loop nests reach them.
\<close>

definition mac_step ::
  "ptr \<Rightarrow> ptr \<Rightarrow> ptr \<Rightarrow> int \<times> int \<times> int \<Rightarrow> ('a::{plus,times}) memory \<Rightarrow> 'a memory outcome"
where
  "mac_step A B C = (\<lambda>(i, k, j) m. Some (mac A B C i k j m))"

definition box :: "int list \<Rightarrow> int list \<Rightarrow> int list \<Rightarrow> (int \<times> int \<times> int) list" where
  "box is ks js = concat (map (\<lambda>i. concat (map (\<lambda>k. map (\<lambda>j. (i, k, j)) js) ks)) is)"

definition standard_order :: "int \<Rightarrow> (int \<times> int \<times> int) list" where
  "standard_order n = box (loop_values 0 n 1) (loop_values 0 n 1) (loop_values 0 n 1)"

definition tile_values :: "int \<Rightarrow> int \<Rightarrow> int \<Rightarrow> int list" where
  "tile_values off block_size n = loop_values off (min_c (off + block_size) n) 1"

definition tile_order :: "int \<Rightarrow> int \<Rightarrow> int \<Rightarrow> int \<Rightarrow> int \<Rightarrow> (int \<times> int \<times> int) list" where
  "tile_order n block_size ii jj kk =
     box (tile_values ii block_size n) (tile_values kk block_size n) (tile_values jj block_size n)"

definition blocked_order :: "int \<Rightarrow> int \<Rightarrow> (int \<times> int \<times> int) list" where
  "blocked_order n block_size =
     concat (map (\<lambda>ii.
       concat (map (\<lambda>jj.
         concat (map (\<lambda>kk. tile_order n block_size ii jj kk)
         (loop_values 0 n block_size)))
       (loop_values 0 n block_size)))
     (loop_values 0 n block_size))"

definition in_range :: "int \<Rightarrow> int \<times> int \<times> int \<Rightarrow> bool" where
  "in_range n t = (case t of (i, k, j) \<Rightarrow> 0 \<le> i \<and> i < n \<and> 0 \<le> k \<and> k < n \<and> 0 \<le> j \<and> j < n)"

text \<open>The \<open>k\<close> indices that a list of triples accumulates into the cell \<open>(i, j)\<close>, in order.\<close>

definition ks_of :: "int \<Rightarrow> int \<Rightarrow> (int \<times> int \<times> int) list \<Rightarrow> int list" where
  "ks_of i j ts = map (\<lambda>(i', k, j'). k) (filter (\<lambda>(i', k, j'). i' = i \<and> j' = j) ts)"

text \<open>
  An \<open>n \<times> n\<close> matrix in memory, as the drivers build it: a table of \<open>n\<close> row pointers, each
  to a block of \<open>n\<close> elements. \<open>operands\<close> adds the data model's separation: the rows of
  the accumulator \<open>C\<close> are pairwise different blocks, and none of them is a row of \<open>A\<close> or
  of \<open>B\<close>. (\<open>A\<close> and \<open>B\<close> may share rows: they are only read.)
\<close>

definition row_table :: "'a memory \<Rightarrow> ptr \<Rightarrow> ptr list" where
  "row_table m M =
     (case M of Null \<Rightarrow> [] | Ptr t \<Rightarrow> if t < length (tables m) then tables m ! t else [])"

definition valid_row :: "'a memory \<Rightarrow> int \<Rightarrow> ptr \<Rightarrow> bool" where
  "valid_row m n p =
     (case p of Null \<Rightarrow> False | Ptr r \<Rightarrow> r < length (rows m) \<and> int (length (rows m ! r)) = n)"

definition square_matrix :: "'a memory \<Rightarrow> ptr \<Rightarrow> int \<Rightarrow> bool" where
  "square_matrix m M n =
     (case M of
        Null \<Rightarrow> False
      | Ptr t \<Rightarrow> t < length (tables m) \<and> int (length (tables m ! t)) = n \<and>
          list_all (valid_row m n) (tables m ! t))"

definition separate :: "'a memory \<Rightarrow> ptr \<Rightarrow> ptr \<Rightarrow> ptr \<Rightarrow> bool" where
  "separate m A B C =
     (distinct (row_table m C) \<and>
      set (row_table m C) \<inter> (set (row_table m A) \<union> set (row_table m B)) = {})"

definition operands :: "'a memory \<Rightarrow> ptr \<Rightarrow> ptr \<Rightarrow> ptr \<Rightarrow> int \<Rightarrow> bool" where
  "operands m A B C n =
     (square_matrix m A n \<and> square_matrix m B n \<and> square_matrix m C n \<and> separate m A B C)"

text \<open>The element \<open>M[i][j]\<close> of a matrix in memory (for \<open>i\<close>, \<open>j\<close> inside the matrix).\<close>

definition block_of :: "ptr \<Rightarrow> nat" where
  "block_of p = (case p of Null \<Rightarrow> 0 | Ptr r \<Rightarrow> r)"

definition elem :: "'a memory \<Rightarrow> ptr \<Rightarrow> int \<Rightarrow> int \<Rightarrow> 'a" where
  "elem m M i j = rows m ! block_of (row_table m M ! nat i) ! nat j"

text \<open>A matrix whose every element is zero.\<close>

definition cleared :: "('a::zero) memory \<Rightarrow> ptr \<Rightarrow> bool" where
  "cleared m M = list_all (\<lambda>p. list_all (\<lambda>x. x = 0) (rows m ! block_of p)) (row_table m M)"

text \<open>The memory after the store \<open>*(row r + j) = v\<close>.\<close>

definition poke :: "'a memory \<Rightarrow> nat \<Rightarrow> int \<Rightarrow> 'a \<Rightarrow> 'a memory" where
  "poke m r j v = m\<lparr>rows := (rows m)[r := (rows m ! r)[nat j := v]]\<rparr>"

text \<open>
  The accumulation \<open>(\<dots>((c + A[i][k\<^sub>1] * B[k\<^sub>1][j]) + A[i][k\<^sub>2] * B[k\<^sub>2][j]) + \<dots>)\<close> over a list
  of \<open>k\<close>, left to right, and the relation between a memory and the memory that a list
  of triples leaves behind.
\<close>

definition dot_acc ::
  "'a memory \<Rightarrow> ptr \<Rightarrow> ptr \<Rightarrow> int \<Rightarrow> int \<Rightarrow> ('a::{plus,times}) \<Rightarrow> int list \<Rightarrow> 'a"
where
  "dot_acc m A B i j c ks = foldl (\<lambda>acc k. acc + elem m A i k * elem m B k j) c ks"

definition result_of ::
  "('a::{plus,times}) memory \<Rightarrow> ptr \<Rightarrow> ptr \<Rightarrow> ptr \<Rightarrow> int \<Rightarrow> (int \<times> int \<times> int) list \<Rightarrow>
     'a memory \<Rightarrow> bool"
where
  "result_of m A B C n ts m' =
     (tables m' = tables m \<and> length (rows m') = length (rows m) \<and>
      (\<forall>r. length (rows m' ! r) = length (rows m ! r)) \<and>
      (\<forall>r. Ptr r \<notin> set (row_table m C) \<longrightarrow> rows m' ! r = rows m ! r) \<and>
      (\<forall>i j. 0 \<le> i \<and> i < n \<and> 0 \<le> j \<and> j < n \<longrightarrow>
         elem m' C i j = dot_acc m A B i j (elem m C i j) (ks_of i j ts)))"

text \<open>
  The frame of a kernel call with accumulator \<open>C\<close>: no block is allocated or released,
  no row-pointer table changes, and every element block that is not a row of \<open>C\<close> keeps
  its contents.
\<close>

definition frame :: "'a memory \<Rightarrow> ptr \<Rightarrow> 'a memory \<Rightarrow> bool" where
  "frame m C m' =
     (tables m' = tables m \<and> length (rows m') = length (rows m) \<and>
      (\<forall>r. Ptr r \<notin> set (row_table m C) \<longrightarrow> rows m' ! r = rows m ! r))"

text \<open>
  A small memory for concrete runs: three \<open>3 \<times> 3\<close> integer matrices \<open>A = Ptr 0\<close>,
  \<open>B = Ptr 1\<close>, \<open>C = Ptr 2\<close> with \<open>C\<close> cleared.
\<close>

definition mem3 :: "int memory" where
  "mem3 = \<lparr>tables = [[Ptr 0, Ptr 1, Ptr 2], [Ptr 3, Ptr 4, Ptr 5], [Ptr 6, Ptr 7, Ptr 8]],
            rows = [[1, 2, 3], [4, 5, 6], [7, 8, 9],
                    [1, 0, 2], [0, 1, 0], [3, 0, 1],
                    [0, 0, 0], [0, 0, 0], [0, 0, 0]]\<rparr>"

text \<open>
  An ill-formed memory: as \<open>mem3\<close>, but the row \<open>B[0]\<close> has two elements only and the
  row pointer \<open>B[1]\<close> is null. On it the order of the accesses shows in the outcome: the
  first access that fails is \<open>B[0][2]\<close> when \<open>j\<close> runs innermost, and \<open>B[1][0]\<close> when \<open>k\<close>
  does.
\<close>

definition ragged3 :: "int memory" where
  "ragged3 = \<lparr>tables = [[Ptr 0, Ptr 1, Ptr 2], [Ptr 3, Null, Ptr 5], [Ptr 6, Ptr 7, Ptr 8]],
               rows = [[1, 2, 3], [4, 5, 6], [7, 8, 9],
                       [1, 0], [0, 1, 0], [3, 0, 1],
                       [0, 0, 0], [0, 0, 0], [0, 0, 0]]\<rparr>"

section \<open>The loop nests of mxm.c\<close>

text \<open>
  The second program compares two loop orders on \<open>512 \<times> 512\<close> matrices. Its dimensions are
  macros; the loops are written in \<open>main\<close>. The model takes the loop bounds as parameters
  (\<open>main\<close> passes \<open>R1\<close>, \<open>C2\<close>, \<open>R2\<close>), and \<open>compare_loop_orders\<close> is the sequence of the
  three loop nests of \<open>main\<close>: clearing both result matrices, the i-j-k nest on
  \<open>result_ijk\<close>, the i-k-j nest on \<open>result_ikj\<close>.
\<close>

definition R1 :: int where "R1 = 512"
definition C1 :: int where "C1 = 512"
definition R2 :: int where "R2 = 512"
definition C2 :: int where "C2 = 512"

definition and_then :: "'s outcome \<Rightarrow> ('s \<Rightarrow> 't outcome) \<Rightarrow> 't outcome" where
  "and_then r f = (case r of None \<Rightarrow> None | Some (Inl e) \<Rightarrow> Some (Inl e) | Some (Inr s) \<Rightarrow> f s)"

definition clear_results ::
  "ptr \<Rightarrow> ptr \<Rightarrow> int \<Rightarrow> int \<Rightarrow> ('a::zero) memory \<Rightarrow> 'a memory outcome"
where
  "clear_results result_ijk result_ikj r1 c2 =
     for_loop 0 r1 1 (\<lambda>i.
       for_loop 0 c2 1 (\<lambda>j m.
         (case write2 m result_ijk i j 0 of
            Inl f \<Rightarrow> Some (Inl f)
          | Inr m' \<Rightarrow> Some (write2 m' result_ikj i j 0))))"

definition ijk_nest ::
  "ptr \<Rightarrow> ptr \<Rightarrow> ptr \<Rightarrow> int \<Rightarrow> int \<Rightarrow> int \<Rightarrow> ('a::{plus,times}) memory \<Rightarrow> 'a memory outcome"
where
  "ijk_nest m1 m2 result_ijk r1 c2 r2 =
     for_loop 0 r1 1 (\<lambda>i.
       for_loop 0 c2 1 (\<lambda>j.
         for_loop 0 r2 1 (\<lambda>k m.
           Some (mac m1 m2 result_ijk i k j m))))"

definition ikj_nest ::
  "ptr \<Rightarrow> ptr \<Rightarrow> ptr \<Rightarrow> int \<Rightarrow> int \<Rightarrow> int \<Rightarrow> ('a::{plus,times}) memory \<Rightarrow> 'a memory outcome"
where
  "ikj_nest m1 m2 result_ikj r1 c2 r2 =
     for_loop 0 r1 1 (\<lambda>i.
       for_loop 0 r2 1 (\<lambda>k.
         for_loop 0 c2 1 (\<lambda>j m.
           Some (mac m1 m2 result_ikj i k j m))))"

definition compare_loop_orders ::
  "ptr \<Rightarrow> ptr \<Rightarrow> ptr \<Rightarrow> ptr \<Rightarrow> int \<Rightarrow> int \<Rightarrow> int \<Rightarrow>
     ('a::{plus,times,zero}) memory \<Rightarrow> 'a memory outcome"
where
  "compare_loop_orders m1 m2 result_ijk result_ikj r1 c2 r2 m =
     and_then (clear_results result_ijk result_ikj r1 c2 m) (\<lambda>ma.
       and_then (ijk_nest m1 m2 result_ijk r1 c2 r2 ma) (\<lambda>mb.
         ikj_nest m1 m2 result_ikj r1 c2 r2 mb))"

text \<open>The three loop nests as \<open>main\<close> runs them, with the macros as bounds.\<close>

definition mxm_main_loops ::
  "ptr \<Rightarrow> ptr \<Rightarrow> ptr \<Rightarrow> ptr \<Rightarrow> ('a::{plus,times,zero}) memory \<Rightarrow> 'a memory outcome"
where
  "mxm_main_loops m1 m2 result_ijk result_ikj =
     compare_loop_orders m1 m2 result_ijk result_ikj R1 C2 R2"

text \<open>The order in which the i-j-k nest reaches the index triples, and the cells of a matrix in row-major order.\<close>

definition ijk_order :: "int \<Rightarrow> int \<Rightarrow> int \<Rightarrow> (int \<times> int \<times> int) list" where
  "ijk_order r1 c2 r2 =
     concat (map (\<lambda>i. concat (map (\<lambda>j. map (\<lambda>k. (i, k, j)) (loop_values 0 r2 1))
       (loop_values 0 c2 1))) (loop_values 0 r1 1))"

definition cells :: "int \<Rightarrow> int \<Rightarrow> (int \<times> int) list" where
  "cells r c = concat (map (\<lambda>i. map (\<lambda>j. (i, j)) (loop_values 0 c 1)) (loop_values 0 r 1))"

text \<open>
  Two memories of the same shape: the same tables, the same element blocks with the same
  lengths. The four matrices of the comparison: both results are separate from the
  inputs and from each other.
\<close>

definition shape :: "'a memory \<Rightarrow> 'a memory \<Rightarrow> bool" where
  "shape m m' =
     (tables m' = tables m \<and> length (rows m') = length (rows m) \<and>
      (\<forall>r. length (rows m' ! r) = length (rows m ! r)))"

definition comparison_operands ::
  "'a memory \<Rightarrow> ptr \<Rightarrow> ptr \<Rightarrow> ptr \<Rightarrow> ptr \<Rightarrow> int \<Rightarrow> bool"
where
  "comparison_operands m m1 m2 result_ijk result_ikj n =
     (operands m m1 m2 result_ijk n \<and> operands m m1 m2 result_ikj n \<and>
      set (row_table m result_ijk) \<inter> set (row_table m result_ikj) = {})"

definition clear_cell :: "ptr \<Rightarrow> ptr \<Rightarrow> int \<times> int \<Rightarrow> ('a::zero) memory \<Rightarrow> 'a memory outcome" where
  "clear_cell result_ijk result_ikj = (\<lambda>(i, j) m.
     (case write2 m result_ijk i j 0 of
        Inl f \<Rightarrow> Some (Inl f)
      | Inr m' \<Rightarrow> Some (write2 m' result_ikj i j 0)))"

definition both_zero :: "('a::zero) memory \<Rightarrow> ptr \<Rightarrow> ptr \<Rightarrow> int \<times> int \<Rightarrow> bool" where
  "both_zero m P Q c = (case c of (i, j) \<Rightarrow> elem m P i j = 0 \<and> elem m Q i j = 0)"

definition cell_in :: "int \<Rightarrow> int \<times> int \<Rightarrow> bool" where
  "cell_in n c = (case c of (i, j) \<Rightarrow> 0 \<le> i \<and> i < n \<and> 0 \<le> j \<and> j < n)"

text \<open>
  A memory with four \<open>2 \<times> 2\<close> integer matrices, \<open>m1 = Ptr 0\<close>, \<open>m2 = Ptr 1\<close>,
  \<open>result_ijk = Ptr 2\<close>, \<open>result_ikj = Ptr 3\<close>; the results hold arbitrary values.
\<close>

definition mem4 :: "int memory" where
  "mem4 = \<lparr>tables = [[Ptr 0, Ptr 1], [Ptr 2, Ptr 3], [Ptr 4, Ptr 5], [Ptr 6, Ptr 7]],
            rows = [[1, 2], [3, 4], [5, 6], [7, 8], [9, 9], [9, 9], [8, 8], [8, 8]]\<rparr>"

section \<open>The stride experiment of exercice1.c\<close>

text \<open>\<open>#define MAX_STRIDE 20\<close> and the local \<open>int N = 1000000\<close> of \<open>main\<close>.\<close>

definition MAX_STRIDE :: int where "MAX_STRIDE = 20"

definition N_stride :: int where "N_stride = 1000000"

text \<open>A product of two C \<open>int\<close>s.\<close>

definition mul_int :: "int \<Rightarrow> int \<Rightarrow> fault + int" where
  "mul_int a b =
     (if INT_MIN \<le> a * b \<and> a * b \<le> INT_MAX then Inr (a * b) else Inl IntOverflow)"

text \<open>
  The state of the scanning loop: the variable \<open>sum\<close>, and the indices of the elements
  read so far, in order. \<open>reads\<close> is not a variable of the program: it records what the
  loop does and takes no part in what it computes.
\<close>

record scan =
  sum_v :: real
  reads :: "int list"

text \<open>
  \<open>for (int i = 0; i < N * MAX_STRIDE; i++) a[i] = 1.;\<close> and, for one value of \<open>i_stride\<close>,
  \<open>sum = 0.0; for (int i = 0; i < N * i_stride; i += i_stride) sum += a[i];\<close>, with the
  values of \<open>N\<close> and \<open>MAX_STRIDE\<close> as parameters. The buffer is a block of \<open>rows\<close>; a
  \<open>double\<close> is a real number here: every value the scan computes is a natural number up
  to \<open>10^6\<close>, which a double holds exactly.
\<close>

definition init_buffer :: "ptr \<Rightarrow> int \<Rightarrow> int \<Rightarrow> real memory \<Rightarrow> real memory outcome" where
  "init_buffer a n max_stride =
     for_loop_to 0 (mul_int n max_stride) 1 (\<lambda>i m. Some (store_elem m a i 1))"

definition strided_scan :: "ptr \<Rightarrow> int \<Rightarrow> int \<Rightarrow> real memory \<Rightarrow> scan outcome" where
  "strided_scan a n i_stride m =
     for_loop_to 0 (mul_int n i_stride) i_stride
       (\<lambda>i st. case load_elem m a i of
            Inl f \<Rightarrow> Some (Inl f)
          | Inr v \<Rightarrow> Some (Inr \<lparr>sum_v = sum_v st + v, reads = reads st @ [i]\<rparr>))
       \<lparr>sum_v = 0, reads = []\<rparr>"

text \<open>
  \<open>main\<close> after the allocation: the initialisation, then one scan for each stride from
  \<open>1\<close> to \<open>MAX_STRIDE\<close>; the result is the list of the printed pairs of stride and sum (the
  two timing columns are left out).
\<close>

definition stride_experiment :: "ptr \<Rightarrow> real memory \<Rightarrow> (int \<times> real) list outcome" where
  "stride_experiment a m =
     and_then (init_buffer a N_stride MAX_STRIDE m) (\<lambda>m'.
       for_loop 1 (MAX_STRIDE + 1) 1
         (\<lambda>i_stride lines. case strided_scan a N_stride i_stride m' of
              None \<Rightarrow> None
            | Some (Inl f) \<Rightarrow> Some (Inl f)
            | Some (Inr st) \<Rightarrow> Some (Inr (lines @ [(i_stride, sum_v st)])))
         [])"

text \<open>The pointer \<open>a\<close> is a block of \<open>len\<close> doubles: what a successful \<open>malloc\<close> returns.\<close>

definition buffer_at :: "real memory \<Rightarrow> ptr \<Rightarrow> int \<Rightarrow> bool" where
  "buffer_at m a len =
     (case a of Null \<Rightarrow> False | Ptr r \<Rightarrow> r < length (rows m) \<and> int (length (rows m ! r)) = len)"

definition small_buffer :: "real memory" where
  "small_buffer = \<lparr>tables = [], rows = [[5, 6, 7, 8, 9, 10]]\<rparr>"

definition scan_step :: "real memory \<Rightarrow> ptr \<Rightarrow> int \<Rightarrow> scan \<Rightarrow> scan outcome" where
  "scan_step m a = (\<lambda>i st. case load_elem m a i of
       Inl f \<Rightarrow> Some (Inl f)
     | Inr v \<Rightarrow> Some (Inr \<lparr>sum_v = sum_v st + v, reads = reads st @ [i]\<rparr>))"

definition big_buffer :: "real memory" where
  "big_buffer = \<lparr>tables = [], rows = [replicate (nat (N_stride * MAX_STRIDE)) 0]\<rparr>"

section \<open>The benchmark driver of mxm_bloc.c\<close>

text \<open>
  \<open>main\<close> of mxm_bloc.c allocates three \<open>N \<times> N\<close> matrices, fills \<open>A\<close> and \<open>B\<close> from \<open>rand()\<close>
  after \<open>srand(42)\<close>, opens the result file, times one multiplication for each block size of
  a fixed list, then times the standard kernel once more, and prints one line for each
  timed run. \<open>#define N 512\<close>; \<open>EXIT_FAILURE\<close> is \<open>1\<close>.
\<close>

definition N :: int where "N = 512"

definition EXIT_FAILURE :: int where "EXIT_FAILURE = 1"

text \<open>
  What a run depends on and the program does not control is its \<open>world\<close>: whether the
  \<open>k\<close>-th call of \<open>malloc\<close> succeeds (calls are numbered from \<open>0\<close>), the indeterminate
  contents \<open>junk k j\<close> of element \<open>j\<close> of the block that call returns, the generator behind
  \<open>srand\<close> and \<open>rand\<close> (the state that \<open>srand(seed)\<close> sets, and for a state the value that
  \<open>rand()\<close> returns with the next state), whether \<open>fopen\<close> succeeds, the value that the
  \<open>k\<close>-th call of \<open>clock()\<close> returns, and \<open>CLOCKS_PER_SEC\<close>.
\<close>

record 'g world =
  malloc_ok :: "nat \<Rightarrow> bool"
  junk :: "nat \<Rightarrow> nat \<Rightarrow> real"
  srand_state :: "int \<Rightarrow> 'g"
  rand_next :: "'g \<Rightarrow> int \<times> 'g"
  fopen_ok :: bool
  clock_at :: "nat \<Rightarrow> int"
  clocks_per_sec :: int

text \<open>
  A printed line, with the numbers it shows (how they are formatted is left out):
  \<open>Measurement block_size msec bandwidth speedup\<close> for the lines of the sweep and
  \<open>Standard msec bandwidth 1.0\<close> for the last line. A \<open>double\<close> is a real number here. The
  two quotients that the code computes from a measured time, the bandwidth and the
  speedup, are \<open>real option\<close>: \<open>None\<close> when the divisor is zero, where IEEE division gives
  an infinity or a NaN and no number.
\<close>

datatype line =
  Text string
  | Size int int
  | Measurement int real "real option" "real option"
  | Standard real "real option" real

text \<open>
  The state of a run: the heap, the state of the generator, the numbers of calls of
  \<open>malloc\<close> and of \<open>clock\<close> made so far, the lines printed on the console (\<open>printf\<close>) and
  in the result file (\<open>fprintf\<close>), and the variable \<open>standard_time\<close>.
\<close>

record 'g state =
  heap :: "real memory"
  rng :: 'g
  mallocs :: nat
  clocks :: nat
  console :: "line list"
  listing :: "line list"
  standard_time :: real

definition ok :: "'a \<Rightarrow> 'a outcome" where
  "ok x = Some (Inr x)"

definition on_heap ::
  "(real memory \<Rightarrow> fault + real memory) \<Rightarrow> 'g state \<Rightarrow> 'g state outcome"
where
  "on_heap f s = (case f (heap s) of Inl e \<Rightarrow> Some (Inl e) | Inr m \<Rightarrow> Some (Inr (s\<lparr>heap := m\<rparr>)))"

definition run_heap ::
  "(real memory \<Rightarrow> real memory outcome) \<Rightarrow> 'g state \<Rightarrow> 'g state outcome"
where
  "run_heap f s = and_then (f (heap s)) (\<lambda>m. ok (s\<lparr>heap := m\<rparr>))"

text \<open>The assignment \<open>M[i] = p\<close> of a row pointer.\<close>

definition store_ptr :: "'a memory \<Rightarrow> ptr \<Rightarrow> int \<Rightarrow> ptr \<Rightarrow> fault + 'a memory" where
  "store_ptr m M i p =
     (case M of
        Null \<Rightarrow> Inl NullPointer
      | Ptr t \<Rightarrow>
          if t < length (tables m) \<and> 0 \<le> i \<and> i < int (length (tables m ! t))
          then Inr (m\<lparr>tables := (tables m)[t := (tables m ! t)[nat i := p]]\<rparr>)
          else Inl OutOfBounds)"

text \<open>
  \<open>malloc(n * sizeof(double *))\<close> and \<open>malloc(n * sizeof(double))\<close>: a new block at the end of
  the heap, or \<open>NULL\<close>. The program writes every element of a row-pointer table before it
  reads it, so the indeterminate initial entries of a table are taken to be \<open>NULL\<close>.
\<close>

definition malloc_table :: "'g world \<Rightarrow> int \<Rightarrow> 'g state \<Rightarrow> ptr \<times> 'g state" where
  "malloc_table w n s =
     (if malloc_ok w (mallocs s)
      then (Ptr (length (tables (heap s))),
            s\<lparr>heap := (heap s)\<lparr>tables := tables (heap s) @ [replicate (nat n) Null]\<rparr>,
              mallocs := Suc (mallocs s)\<rparr>)
      else (Null, s\<lparr>mallocs := Suc (mallocs s)\<rparr>))"

definition malloc_row :: "'g world \<Rightarrow> int \<Rightarrow> 'g state \<Rightarrow> ptr \<times> 'g state" where
  "malloc_row w n s =
     (if malloc_ok w (mallocs s)
      then (Ptr (length (rows (heap s))),
            s\<lparr>heap := (heap s)\<lparr>rows := rows (heap s) @ [map (junk w (mallocs s)) [0..<nat n]]\<rparr>,
              mallocs := Suc (mallocs s)\<rparr>)
      else (Null, s\<lparr>mallocs := Suc (mallocs s)\<rparr>))"

text \<open>
  \<open>rand()\<close> and \<open>clock()\<close>; the remainder \<open>a % b\<close> of C, which truncates towards zero;
  the division of two doubles; and \<open>(double)t / CLOCKS_PER_SEC\<close>, where \<open>CLOCKS_PER_SEC\<close> is
  a positive constant of the C library (the results about measured times assume it
  positive).
\<close>

definition c_rand :: "'g world \<Rightarrow> 'g state \<Rightarrow> int \<times> 'g state" where
  "c_rand w s = (fst (rand_next w (rng s)), s\<lparr>rng := snd (rand_next w (rng s))\<rparr>)"

definition c_clock :: "'g world \<Rightarrow> 'g state \<Rightarrow> int \<times> 'g state" where
  "c_clock w s = (clock_at w (clocks s), s\<lparr>clocks := Suc (clocks s)\<rparr>)"

definition c_rem :: "int \<Rightarrow> int \<Rightarrow> int" where
  "c_rem a b = sgn a * (\<bar>a\<bar> mod \<bar>b\<bar>)"

definition ddiv :: "real \<Rightarrow> real \<Rightarrow> real option" where
  "ddiv a b = (if b = 0 then None else Some (a / b))"

definition seconds :: "'g world \<Rightarrow> int \<Rightarrow> real" where
  "seconds w t = real_of_int t / real_of_int (clocks_per_sec w)"

text \<open>
  Lines 44 to 52: three tables, then for each \<open>i\<close> the rows \<open>A[i]\<close>, \<open>B[i]\<close>, \<open>C[i]\<close>. No result
  of \<open>malloc\<close> is tested.
\<close>

definition alloc_row_into :: "'g world \<Rightarrow> int \<Rightarrow> ptr \<Rightarrow> int \<Rightarrow> 'g state \<Rightarrow> 'g state outcome" where
  "alloc_row_into w n M i s =
     (case malloc_row w n s of (p, s1) \<Rightarrow> on_heap (\<lambda>m. store_ptr m M i p) s1)"

definition allocate :: "'g world \<Rightarrow> int \<Rightarrow> 'g state \<Rightarrow> (ptr \<times> ptr \<times> ptr \<times> 'g state) outcome" where
  "allocate w n s0 =
     (case malloc_table w n s0 of (A, s1) \<Rightarrow>
      case malloc_table w n s1 of (B, s2) \<Rightarrow>
      case malloc_table w n s2 of (C, s3) \<Rightarrow>
        and_then
          (for_loop 0 n 1 (\<lambda>i s.
             and_then (alloc_row_into w n A i s) (\<lambda>s.
             and_then (alloc_row_into w n B i s) (\<lambda>s.
               alloc_row_into w n C i s))) s3)
          (\<lambda>s. ok (A, B, C, s)))"

text \<open>
  Lines 55 to 62: \<open>srand(42)\<close>, then for each cell in row-major order
  \<open>A[i][j] = (double)(rand() % 10) + 1.0; B[i][j] = (double)(rand() % 10) + 1.0; C[i][j] = 0.0;\<close>.
\<close>

definition seed_value :: "int \<Rightarrow> real" where
  "seed_value x = real_of_int (c_rem x 10) + 1"

definition assign :: "ptr \<Rightarrow> int \<Rightarrow> int \<Rightarrow> real \<Rightarrow> 'g state \<Rightarrow> 'g state outcome" where
  "assign M i j v = on_heap (\<lambda>m. write2 m M i j v)"

definition assign_random :: "'g world \<Rightarrow> ptr \<Rightarrow> int \<Rightarrow> int \<Rightarrow> 'g state \<Rightarrow> 'g state outcome" where
  "assign_random w M i j s = (case c_rand w s of (x, s1) \<Rightarrow> assign M i j (seed_value x) s1)"

definition seed :: "'g world \<Rightarrow> ptr \<Rightarrow> ptr \<Rightarrow> ptr \<Rightarrow> int \<Rightarrow> 'g state \<Rightarrow> 'g state outcome" where
  "seed w A B C n s =
     for_loop 0 n 1 (\<lambda>i.
       for_loop 0 n 1 (\<lambda>j s.
         and_then (assign_random w A i j s) (\<lambda>s.
         and_then (assign_random w B i j s) (\<lambda>s.
           assign C i j 0 s))))
       (s\<lparr>rng := srand_state w 42\<rparr>)"

text \<open>The loop that clears \<open>C\<close> before each timed run.\<close>

definition clear_C :: "ptr \<Rightarrow> int \<Rightarrow> 'g state \<Rightarrow> 'g state outcome" where
  "clear_C C n =
     for_loop 0 n 1 (\<lambda>i.
       for_loop 0 n 1 (\<lambda>j.
         assign C i j 0))"

text \<open>
  \<open>total_ops = 4LL * N * N * N\<close>, \<open>total_bytes = total_ops * sizeof(double)\<close> and
  \<open>bandwidth = total_bytes * (1000.0 / msec) / (1024 * 1024)\<close>.
\<close>

definition total_ops :: "int \<Rightarrow> int" where
  "total_ops n = 4 * n * n * n"

definition sizeof_double :: int where
  "sizeof_double = 8"

definition total_bytes :: "int \<Rightarrow> int" where
  "total_bytes n = total_ops n * sizeof_double"

definition bandwidth_of :: "int \<Rightarrow> real \<Rightarrow> real option" where
  "bandwidth_of n msec =
     map_option (\<lambda>q. real_of_int (total_bytes n) * q / real_of_int (1024 * 1024)) (ddiv 1000 msec)"

text \<open>
  A timed call: \<open>start = (double)clock() / CLOCKS_PER_SEC\<close>, the call,
  \<open>end = (double)clock() / CLOCKS_PER_SEC\<close>, \<open>msec = (end - start) * 1000.0\<close>. \<open>emit\<close> prints a
  line on the console and in the file.
\<close>

definition timed ::
  "'g world \<Rightarrow> (real memory \<Rightarrow> real memory outcome) \<Rightarrow> 'g state \<Rightarrow> (real \<times> 'g state) outcome"
where
  "timed w multiply s =
     (case c_clock w s of (t0, s1) \<Rightarrow>
        and_then (run_heap multiply s1) (\<lambda>s2.
          case c_clock w s2 of (t1, s3) \<Rightarrow>
            ok ((seconds w t1 - seconds w t0) * 1000, s3)))"

definition emit :: "line \<Rightarrow> 'g state \<Rightarrow> 'g state" where
  "emit l s = s\<lparr>console := console s @ [l], listing := listing s @ [l]\<rparr>"

text \<open>
  The body of the loop over \<open>bs_idx\<close> (lines 88 to 119), with the literal \<open>512\<close> of its two
  tests, and the run of the standard kernel after the loop (lines 123 to 136). Reading
  \<open>block_sizes[bs_idx]\<close> outside the array is a fault.
\<close>

definition sweep_step ::
  "'g world \<Rightarrow> ptr \<Rightarrow> ptr \<Rightarrow> ptr \<Rightarrow> int \<Rightarrow> int list \<Rightarrow> int \<Rightarrow> 'g state \<Rightarrow> 'g state outcome"
where
  "sweep_step w A B C n block_sizes bs_idx s =
     (if 0 \<le> bs_idx \<and> bs_idx < int (length block_sizes) then
        let block_size = block_sizes ! nat bs_idx in
        and_then (clear_C C n s) (\<lambda>s1.
        and_then (timed w (if block_size = 512 then matrix_multiply_standard A B C n
                           else matrix_multiply_blocked A B C n block_size) s1)
          (\<lambda>(msec, s2).
             let bandwidth = bandwidth_of n msec;
                 s3 = (if block_size = 512 \<or> bs_idx = 0 then s2\<lparr>standard_time := msec\<rparr> else s2);
                 speedup = ddiv (standard_time s3) msec
             in ok (emit (Measurement block_size msec bandwidth speedup) s3)))
      else Some (Inl OutOfBounds))"

definition final_run ::
  "'g world \<Rightarrow> ptr \<Rightarrow> ptr \<Rightarrow> ptr \<Rightarrow> int \<Rightarrow> 'g state \<Rightarrow> 'g state outcome"
where
  "final_run w A B C n s =
     and_then (clear_C C n s) (\<lambda>s1.
     and_then (timed w (matrix_multiply_standard A B C n) s1)
       (\<lambda>(msec, s2). ok (emit (Standard msec (bandwidth_of n msec) 1.0) s2)))"

text \<open>
  The header lines, and \<open>main\<close> as a function of the dimension and of the list of block
  sizes; \<open>main\<close> itself is this function at \<open>N\<close> and \<open>{8, 16, 32, 64, 128, 256}\<close>. The result
  is the exit status with the final state: \<open>exit(EXIT_FAILURE)\<close> after the message when
  \<open>fopen\<close> returns \<open>NULL\<close>, and \<open>return 0\<close> at the end. The calls of \<open>free\<close> before \<open>return 0\<close>
  are left out: nothing is printed or computed after them. Before \<open>srand\<close> is called the
  generator is in the state of \<open>srand(1)\<close>.
\<close>

definition headers :: "int \<Rightarrow> 'g state \<Rightarrow> 'g state" where
  "headers n s = s\<lparr>
     listing := listing s @
       [Text ''Block Matrix Multiplication Performance Analysis'',
        Size n n,
        Text ''Block Size, Time (msec), Bandwidth (MB/s), Speedup vs Standard''],
     console := console s @
       [Text ''Block Matrix Multiplication Performance Analysis'',
        Size n n,
        Text ''Block Size, Time (msec), Bandwidth (MB/s), Speedup'']\<rparr>"

definition prepare :: "'g world \<Rightarrow> int \<Rightarrow> 'g state \<Rightarrow> (ptr \<times> ptr \<times> ptr \<times> 'g state) outcome" where
  "prepare w n s0 =
     and_then (allocate w n s0) (\<lambda>(A, B, C, s1).
     and_then (seed w A B C n s1) (\<lambda>s2. ok (A, B, C, s2)))"

definition driver :: "'g world \<Rightarrow> int \<Rightarrow> int list \<Rightarrow> 'g state \<Rightarrow> (int \<times> 'g state) outcome" where
  "driver w n block_sizes s0 =
     and_then (prepare w n s0) (\<lambda>(A, B, C, s2).
       if \<not> fopen_ok w
       then ok (EXIT_FAILURE, s2\<lparr>console := console s2 @ [Text ''Error opening file!'']\<rparr>)
       else
         and_then (for_loop 0 (int (length block_sizes)) 1
                     (sweep_step w A B C n block_sizes) ((headers n s2)\<lparr>standard_time := 0\<rparr>)) (\<lambda>s3.
         and_then (final_run w A B C n s3) (\<lambda>s4.
           ok (0, s4\<lparr>console := console s4 @ [Text ''Results saved to mxm_bloc_results.txt'']\<rparr>))))"

definition block_sizes :: "int list" where
  "block_sizes = [8, 16, 32, 64, 128, 256]"

definition start_state :: "'g world \<Rightarrow> 'g state" where
  "start_state w = \<lparr>heap = \<lparr>tables = [], rows = []\<rparr>, rng = srand_state w 1, mallocs = 0,
     clocks = 0, console = [], listing = [], standard_time = 0\<rparr>"

definition main :: "'g world \<Rightarrow> (int \<times> 'g state) outcome" where
  "main w = driver w N block_sizes (start_state w)"

text \<open>
  A world for concrete runs: every allocation succeeds, the generator is a linear
  congruential one, the \<open>k\<close>-th call of \<open>clock()\<close> returns \<open>1000 * k * k\<close> and
  \<open>CLOCKS_PER_SEC\<close> is \<open>1000000\<close>.
\<close>

definition lcg_world :: "int world" where
  "lcg_world = \<lparr>malloc_ok = (\<lambda>k. True), junk = (\<lambda>k j. 77),
     srand_state = (\<lambda>seed. seed),
     rand_next = (\<lambda>g. ((g * 1103515245 + 12345) mod 2147483648,
                          (g * 1103515245 + 12345) mod 2147483648)),
     fopen_ok = True, clock_at = (\<lambda>k. 1000 * int k * int k), clocks_per_sec = 1000000\<rparr>"

text \<open>
  Vocabulary for the allocation: after \<open>q\<close> row allocations that all succeeded, the three
  tables hold the pointers to the blocks \<open>0, \<dots>, q - 1\<close> in the order of allocation, and
  every block has \<open>n\<close> elements. \<open>matrices\<close> says that \<open>A\<close>, \<open>B\<close>, \<open>C\<close> are \<open>n \<times> n\<close> matrices
  no two of which share a row.
\<close>

definition rest_of :: "'g state \<Rightarrow> 'g \<times> nat \<times> line list \<times> line list \<times> real" where
  "rest_of s = (rng s, clocks s, console s, listing s, standard_time s)"

definition rows_allocated :: "'g state \<Rightarrow> int \<Rightarrow> nat \<Rightarrow> 'g state \<Rightarrow> bool" where
  "rows_allocated s0 n q s =
     (length (tables (heap s)) = 3 \<and>
      (\<forall>c < 3. length (tables (heap s) ! c) = nat n) \<and>
      (\<forall>c < 3. \<forall>t < nat n.
         tables (heap s) ! c ! t = (if 3 * t + c < q then Ptr (3 * t + c) else Null)) \<and>
      length (rows (heap s)) = q \<and>
      (\<forall>r < q. length (rows (heap s) ! r) = nat n) \<and>
      mallocs s = 3 + q \<and> rest_of s = rest_of s0)"

definition matrices :: "'a memory \<Rightarrow> ptr \<Rightarrow> ptr \<Rightarrow> ptr \<Rightarrow> int \<Rightarrow> bool" where
  "matrices m A B C n =
     (square_matrix m A n \<and> square_matrix m B n \<and> square_matrix m C n \<and>
      distinct (row_table m A @ row_table m B @ row_table m C))"

text \<open>
  The state of the generator \<open>k\<close> calls of \<open>rand()\<close> after \<open>srand(42)\<close>, and the value that the
  next call returns: \<open>draw w 0\<close>, \<open>draw w 1\<close>, \<dots> are the values of the successive calls.
  \<open>seeded \<dots> p s\<close>: the first \<open>p\<close> cells in row-major order hold their final values.
\<close>

definition rand_state :: "'g world \<Rightarrow> nat \<Rightarrow> 'g" where
  "rand_state w k = ((\<lambda>g. snd (rand_next w g)) ^^ k) (srand_state w 42)"

definition draw :: "'g world \<Rightarrow> nat \<Rightarrow> int" where
  "draw w k = fst (rand_next w (rand_state w k))"

definition others_of :: "'g state \<Rightarrow> nat \<times> nat \<times> line list \<times> line list \<times> real" where
  "others_of s = (mallocs s, clocks s, console s, listing s, standard_time s)"

definition seeded ::
  "'g world \<Rightarrow> 'g state \<Rightarrow> ptr \<Rightarrow> ptr \<Rightarrow> ptr \<Rightarrow> int \<Rightarrow> int \<Rightarrow> 'g state \<Rightarrow> bool"
where
  "seeded w s0 A B C n p s =
     (shape (heap s0) (heap s) \<and> rng s = rand_state w (2 * nat p) \<and> others_of s = others_of s0 \<and>
      (\<forall>i j. 0 \<le> i \<and> i < n \<and> 0 \<le> j \<and> j < n \<and> i * n + j < p \<longrightarrow>
         elem (heap s) A i j = seed_value (draw w (2 * nat (i * n + j))) \<and>
         elem (heap s) B i j = seed_value (draw w (2 * nat (i * n + j) + 1)) \<and>
         elem (heap s) C i j = 0))"

text \<open>
  The \<open>k\<close>-th timed run of an execution (from \<open>0\<close>) takes the clock samples \<open>2k\<close> and
  \<open>2k + 1\<close>; \<open>elapsed w k\<close> is its \<open>msec\<close>. \<open>measured\<close> is the line that the sweep prints for
  the \<open>k\<close>-th block size when no block size is \<open>512\<close>, \<open>report\<close> all the lines after the
  headers, and \<open>swept \<dots> k t\<close> the state after \<open>k\<close> iterations of the sweep.
\<close>

definition elapsed :: "'g world \<Rightarrow> nat \<Rightarrow> real" where
  "elapsed w k =
     (seconds w (clock_at w (Suc (2 * k))) - seconds w (clock_at w (2 * k))) * 1000"

definition measured :: "'g world \<Rightarrow> int \<Rightarrow> int list \<Rightarrow> nat \<Rightarrow> line" where
  "measured w n bss k =
     Measurement (bss ! k) (elapsed w k) (bandwidth_of n (elapsed w k))
       (ddiv (elapsed w 0) (elapsed w k))"

definition swept :: "'g world \<Rightarrow> int \<Rightarrow> int list \<Rightarrow> 'g state \<Rightarrow> int \<Rightarrow> 'g state \<Rightarrow> bool" where
  "swept w n bss s k t =
     (shape (heap s) (heap t) \<and> clocks t = 2 * nat k \<and>
      console t = console s @ map (measured w n bss) [0..<nat k] \<and>
      listing t = listing s @ map (measured w n bss) [0..<nat k] \<and>
      (0 < k \<longrightarrow> standard_time t = elapsed w 0))"

definition listing_headers :: "int \<Rightarrow> line list" where
  "listing_headers n =
     [Text ''Block Matrix Multiplication Performance Analysis'', Size n n,
      Text ''Block Size, Time (msec), Bandwidth (MB/s), Speedup vs Standard'']"

definition console_headers :: "int \<Rightarrow> line list" where
  "console_headers n =
     [Text ''Block Matrix Multiplication Performance Analysis'', Size n n,
      Text ''Block Size, Time (msec), Bandwidth (MB/s), Speedup'']"

definition report :: "'g world \<Rightarrow> int \<Rightarrow> int list \<Rightarrow> line list" where
  "report w n bss =
     map (measured w n bss) [0..<length bss] @
     [Standard (elapsed w (length bss)) (bandwidth_of n (elapsed w (length bss))) 1]"

text \<open>
  Three more worlds. In \<open>no_clock_world\<close> the processor time is not available and every call
  of \<open>clock()\<close> returns \<open>(clock_t)(-1)\<close>. \<open>other_world\<close> has the generator of \<open>lcg_world\<close> and
  differs from it in the contents of fresh memory, the clock and the file. In
  \<open>out_of_memory_world\<close> the first \<open>1000\<close> calls of \<open>malloc\<close> succeed and every later call
  returns \<open>NULL\<close>.
\<close>

definition no_clock_world :: "int world" where
  "no_clock_world = lcg_world\<lparr>clock_at := (\<lambda>k. - 1)\<rparr>"

definition other_world :: "int world" where
  "other_world = lcg_world\<lparr>junk := (\<lambda>k j. real j), fopen_ok := False,
     clock_at := (\<lambda>k. 7 * int k), clocks_per_sec := 1000\<rparr>"

definition out_of_memory_world :: "int world" where
  "out_of_memory_world = lcg_world\<lparr>malloc_ok := (\<lambda>k. k < 1000)\<rparr>"

text \<open>
  Vocabulary for an allocation that fails. The row allocations are numbered from \<open>0\<close> in
  the order of the calls (\<open>A[0]\<close>, \<open>B[0]\<close>, \<open>C[0]\<close>, \<open>A[1]\<close>, \<dots>), and \<open>q0\<close> is the first that
  fails. \<open>rows_attempted q0 n q s\<close>: after \<open>q\<close> row allocations the rows before \<open>q0\<close> are
  blocks of \<open>n\<close> elements and the table entry of row \<open>q0\<close>, once assigned, is \<open>NULL\<close>.
  \<open>row_ok\<close>: \<open>M[i]\<close> points to a block of \<open>n\<close> elements; \<open>row_null\<close>: \<open>M[i]\<close> is \<open>NULL\<close>.
\<close>

definition rows_attempted :: "nat \<Rightarrow> int \<Rightarrow> nat \<Rightarrow> 'g state \<Rightarrow> bool" where
  "rows_attempted q0 n q s =
     (length (tables (heap s)) = 3 \<and>
      (\<forall>c < 3. length (tables (heap s) ! c) = nat n) \<and>
      (\<forall>q' < min q q0.
         tables (heap s) ! (q' mod 3) ! (q' div 3) = Ptr q' \<and>
         q' < length (rows (heap s)) \<and> length (rows (heap s) ! q') = nat n) \<and>
      (q0 < q \<longrightarrow> tables (heap s) ! (q0 mod 3) ! (q0 div 3) = Null) \<and>
      (q \<le> q0 \<longrightarrow> length (rows (heap s)) = q) \<and>
      mallocs s = 3 + q)"

definition row_ok :: "'a memory \<Rightarrow> int \<Rightarrow> ptr \<Rightarrow> int \<Rightarrow> bool" where
  "row_ok m n M i =
     (case load_ptr m M i of
        Inr (Ptr r) \<Rightarrow> r < length (rows m) \<and> int (length (rows m ! r)) = n
      | _ \<Rightarrow> False)"

definition row_null :: "'a memory \<Rightarrow> ptr \<Rightarrow> int \<Rightarrow> bool" where
  "row_null m M i = (load_ptr m M i = Inr Null)"

section \<open>Loops as runs over their counter values\<close>

lemma loop_values_step:
  "0 < step \<Longrightarrow> v < hi \<Longrightarrow> loop_values v hi step = v # loop_values (v + step) hi step"
  by (subst loop_values.simps) simp

lemma loop_values_done: "\<not> (0 < step \<and> v < hi) \<Longrightarrow> loop_values v hi step = []"
  by (subst loop_values.simps) simp

lemma for_loop_unroll:
  "0 < step \<Longrightarrow> INT_MIN \<le> v \<Longrightarrow>
   (\<And>x. x \<in> set (loop_values v hi step) \<Longrightarrow> x + step \<le> INT_MAX) \<Longrightarrow>
   for_loop v hi step body s = run_list body (loop_values v hi step) s"
proof (induction v hi step arbitrary: s rule: loop_values.induct)
  case (1 v hi step)
  show ?case
  proof (cases "v < hi")
    case False
    then show ?thesis
      by (subst for_loop.simps) (simp add: loop_values_done)
  next
    case True
    have unf: "loop_values v hi step = v # loop_values (v + step) hi step"
      using True 1(2) by (rule loop_values_step[rotated])
    have "v + step \<le> INT_MAX"
      using 1(4)[of v] by (simp add: unf)
    then have ok: "add_int v step = Inr (v + step)"
      using 1(2,3) by (simp add: add_int_def)
    have ih: "\<And>s'. for_loop (v + step) hi step body s' =
        run_list body (loop_values (v + step) hi step) s'"
      using 1(1)[OF conjI[OF 1(2) True]] 1(2,3,4) by (simp add: unf)
    show ?thesis
      by (subst for_loop.simps) (simp add: unf True ok ih split: option.splits sum.splits)
  qed
qed

lemma run_list_append:
  "run_list body (xs @ ys) s =
     (case run_list body xs s of
        None \<Rightarrow> None
      | Some (Inl f) \<Rightarrow> Some (Inl f)
      | Some (Inr s') \<Rightarrow> run_list body ys s')"
  by (induction xs arbitrary: s) (auto split: option.splits sum.splits)

lemma run_list_concat:
  "run_list (\<lambda>x. run_list g (h x)) xs = run_list g (concat (map h xs))"
proof (rule ext)
  fix s
  show "run_list (\<lambda>x. run_list g (h x)) xs s = run_list g (concat (map h xs)) s"
    by (induction xs arbitrary: s) (auto simp: run_list_append split: option.splits sum.splits)
qed

lemma run_list_cong:
  "(\<And>x s. x \<in> set xs \<Longrightarrow> f x s = g x s) \<Longrightarrow> run_list f xs s = run_list g xs s"
  by (induction xs arbitrary: s) (auto split: option.splits sum.splits)

lemma run_list_map: "run_list f (map g xs) s = run_list (\<lambda>x. f (g x)) xs s"
  by (induction xs arbitrary: s) (auto split: option.splits sum.splits)

lemma loop_values_bounds:
  "x \<in> set (loop_values v hi step) \<Longrightarrow> v \<le> x \<and> x < hi"
proof (induction v hi step rule: loop_values.induct)
  case (1 v hi step)
  show ?case
  proof (cases "0 < step \<and> v < hi")
    case False
    with 1(2) show ?thesis by (simp add: loop_values_done)
  next
    case True
    with 1(2) consider "x = v" | "x \<in> set (loop_values (v + step) hi step)"
      by (auto simp: loop_values_step)
    then show ?thesis
    proof cases
      case 1
      then show ?thesis using True by simp
    next
      case 2
      then have "v + step \<le> x \<and> x < hi" using "1.IH" True by simp
      then show ?thesis using True by simp
    qed
  qed
qed

lemma loop_values_unit: "loop_values v hi 1 = [v..hi - 1]"
proof (induction v hi "1::int" rule: loop_values.induct)
  case (1 v hi)
  then show ?case
    by (subst loop_values.simps) (auto simp: upto_rec1)
qed

lemma loop_values_multiple:
  "x \<in> set (loop_values v hi step) \<Longrightarrow> step dvd (x - v)"
proof (induction v hi step rule: loop_values.induct)
  case (1 v hi step)
  show ?case
  proof (cases "0 < step \<and> v < hi")
    case False
    with 1(2) show ?thesis by (simp add: loop_values_done)
  next
    case True
    with 1(2) consider "x = v" | "x \<in> set (loop_values (v + step) hi step)"
      by (auto simp: loop_values_step)
    then show ?thesis
    proof cases
      case 1
      then show ?thesis by simp
    next
      case 2
      then have "step dvd (x - (v + step))"
        using "1.IH" True by simp
      from dvd_add[OF this dvd_refl[of step]] show ?thesis
        by (simp add: algebra_simps)
    qed
  qed
qed

lemma counter_fits:
  assumes "0 < step" "x \<in> set (loop_values 0 n step)"
  shows "x + step \<le> last_counter n step"
proof -
  obtain t where t: "x = step * t"
    using loop_values_multiple[OF assms(2)] by (auto simp: dvd_def)
  have "x < n" using loop_values_bounds[OF assms(2)] by simp
  then have "step * t + step \<le> n + step - 1" using t by simp
  then have "step * (t + 1) \<le> n + step - 1" by (simp add: algebra_simps)
  then have "(step * (t + 1)) div step \<le> (n + step - 1) div step"
    using assms(1) by (intro zdiv_mono1)
  then have "t + 1 \<le> (n + step - 1) div step"
    using assms(1) by simp
  then have "step * (t + 1) \<le> step * ((n + step - 1) div step)"
    using assms(1) by simp
  then show ?thesis
    by (simp add: last_counter_def t algebra_simps)
qed

lemma dimension_fits:
  assumes "0 < step"
  shows "n \<le> last_counter n step"
proof -
  have "(n + step - 1) mod step \<le> step - 1"
    using assms pos_mod_bound[of step "n + step - 1"] by simp
  moreover have "step * ((n + step - 1) div step) = (n + step - 1) - (n + step - 1) mod step"
    by (simp add: minus_mod_eq_mult_div[symmetric])
  ultimately show ?thesis
    by (simp add: last_counter_def)
qed

lemma last_counter_le: "0 < step \<Longrightarrow> last_counter n step \<le> n + step - 1"
proof -
  assume "0 < step"
  have "step * ((n + step - 1) div step) = (n + step - 1) - (n + step - 1) mod step"
    by (simp add: minus_mod_eq_mult_div[symmetric])
  moreover have "0 \<le> (n + step - 1) mod step"
    using \<open>0 < step\<close> by simp
  ultimately show ?thesis
    by (simp add: last_counter_def)
qed

subsection \<open>The two kernels as runs of the multiply-accumulate statement\<close>

lemma mac_step_apply: "mac_step A B C (i, k, j) m = Some (mac A B C i k j m)"
  by (simp add: mac_step_def)

lemma mac_loop_unroll:
  "run_list (\<lambda>j m. Some (mac A B C i k j m)) js =
   run_list (mac_step A B C) (map (\<lambda>j. (i, k, j)) js)"
  by (rule ext) (simp add: run_list_map mac_step_def)

lemma box_unroll:
  "run_list (\<lambda>i. run_list (\<lambda>k. run_list (\<lambda>j m. Some (mac A B C i k j m)) js) ks) is =
   run_list (mac_step A B C) (box is ks js)"
  unfolding box_def mac_loop_unroll run_list_concat by (rule refl)

lemma standard_unrolled:
  assumes "n \<le> INT_MAX"
  shows "matrix_multiply_standard A B C n m = run_list (mac_step A B C) (standard_order n) m"
proof -
  have u: "\<And>body s. for_loop 0 n 1 body s = run_list body (loop_values 0 n 1) s"
  proof (rule for_loop_unroll)
    fix x assume "x \<in> set (loop_values 0 n 1)"
    then have "x < n" using loop_values_bounds by blast
    then show "x + 1 \<le> INT_MAX" using assms by simp
  qed (simp_all add: INT_MIN_def)
  show ?thesis
    unfolding matrix_multiply_standard_def standard_order_def u box_unroll by (rule refl)
qed

lemma tile_loop_unroll:
  assumes "0 \<le> off" "off + block_size \<le> INT_MAX" "0 < block_size" "n \<le> INT_MAX"
  shows "for_loop_to off (tile_end off block_size n) 1 body s =
         run_list body (tile_values off block_size n) s"
proof -
  have e: "tile_end off block_size n = Inr (min_c (off + block_size) n)"
    using assms by (simp add: tile_end_def add_int_def INT_MIN_def)
  have "for_loop off (min_c (off + block_size) n) 1 body s =
      run_list body (loop_values off (min_c (off + block_size) n) 1) s"
  proof (rule for_loop_unroll)
    fix x assume "x \<in> set (loop_values off (min_c (off + block_size) n) 1)"
    then have "x < min_c (off + block_size) n" using loop_values_bounds by blast
    then have "x < n" by (simp add: min_c_def split: if_splits)
    then show "x + 1 \<le> INT_MAX" using assms(4) by simp
  qed (use assms(1) in \<open>simp_all add: INT_MIN_def\<close>)
  then show ?thesis
    by (simp add: for_loop_to_def e tile_values_def)
qed

lemma tile_unrolled:
  assumes "0 < block_size" "n \<le> INT_MAX"
    and "0 \<le> ii" "ii + block_size \<le> INT_MAX"
    and "0 \<le> jj" "jj + block_size \<le> INT_MAX"
    and "0 \<le> kk" "kk + block_size \<le> INT_MAX"
  shows "for_loop_to ii (tile_end ii block_size n) 1 (\<lambda>i.
           for_loop_to kk (tile_end kk block_size n) 1 (\<lambda>k.
             for_loop_to jj (tile_end jj block_size n) 1 (\<lambda>j m.
               Some (mac A B C i k j m)))) m =
         run_list (mac_step A B C) (tile_order n block_size ii jj kk) m"
proof -
  have u: "\<And>off body. 0 \<le> off \<Longrightarrow> off + block_size \<le> INT_MAX \<Longrightarrow>
      for_loop_to off (tile_end off block_size n) 1 body =
      run_list body (tile_values off block_size n)"
    using assms(1,2) by (intro ext tile_loop_unroll)
  show ?thesis
    unfolding tile_order_def u[OF assms(3,4)] u[OF assms(5,6)] u[OF assms(7,8)] box_unroll
    by (rule refl)
qed

lemma blocked_unrolled:
  assumes "0 < block_size" "last_counter n block_size \<le> INT_MAX"
  shows "matrix_multiply_blocked A B C n block_size m =
         run_list (mac_step A B C) (blocked_order n block_size) m"
proof -
  let ?L = "loop_values 0 n block_size"
  have fit: "\<And>x. x \<in> set ?L \<Longrightarrow> x + block_size \<le> INT_MAX"
    using counter_fits[OF assms(1)] assms(2) by fastforce
  have n: "n \<le> INT_MAX"
    using dimension_fits[OF assms(1), of n] assms(2) by simp
  have u: "\<And>body. for_loop 0 n block_size body = run_list body ?L"
    using assms(1) fit by (intro ext for_loop_unroll) (simp_all add: INT_MIN_def)
  have r: "\<And>x. x \<in> set ?L \<Longrightarrow> 0 \<le> x"
    using loop_values_bounds by blast
  have "matrix_multiply_blocked A B C n block_size m =
      run_list (\<lambda>ii. run_list (\<lambda>jj. run_list (\<lambda>kk.
        run_list (mac_step A B C) (tile_order n block_size ii jj kk)) ?L) ?L) ?L m"
    unfolding matrix_multiply_blocked_def u
    by (intro run_list_cong tile_unrolled assms(1) n r fit)
  then show ?thesis
    unfolding blocked_order_def run_list_concat .
qed

section \<open>One multiply-accumulate on well-formed operands\<close>

lemma square_matrix_row:
  assumes "square_matrix m M n" "0 \<le> i" "i < n"
  shows "load_ptr m M i = Inr (row_table m M ! nat i)"
    and "valid_row m n (row_table m M ! nat i)"
    and "row_table m M ! nat i \<in> set (row_table m M)"
    and "int (length (row_table m M)) = n"
  using assms
  by (auto simp: square_matrix_def load_ptr_def row_table_def list_all_length
      split: ptr.splits)

lemma valid_row_block:
  "valid_row m n p \<Longrightarrow> p = Ptr (block_of p) \<and> block_of p < length (rows m) \<and>
     int (length (rows m ! block_of p)) = n"
  by (auto simp: valid_row_def block_of_def split: ptr.splits)

lemma read2_ok:
  assumes "square_matrix m M n" "0 \<le> i" "i < n" "0 \<le> j" "j < n"
  shows "read2 m M i j = Inr (elem m M i j)"
proof -
  let ?p = "row_table m M ! nat i"
  have v: "?p = Ptr (block_of ?p)" "block_of ?p < length (rows m)"
    "int (length (rows m ! block_of ?p)) = n"
    using valid_row_block[OF square_matrix_row(2)[OF assms(1,2,3)]] by auto
  have "load_elem m ?p j = Inr (elem m M i j)"
    by (subst v(1)) (simp add: load_elem_def elem_def v(2,3) assms)
  then show ?thesis
    by (simp add: read2_def square_matrix_row(1)[OF assms(1,2,3)])
qed

lemma write2_ok:
  assumes "square_matrix m M n" "0 \<le> i" "i < n" "0 \<le> j" "j < n"
  shows "write2 m M i j v = Inr (poke m (block_of (row_table m M ! nat i)) j v)"
proof -
  let ?p = "row_table m M ! nat i"
  have v: "?p = Ptr (block_of ?p)" "block_of ?p < length (rows m)"
    "int (length (rows m ! block_of ?p)) = n"
    using valid_row_block[OF square_matrix_row(2)[OF assms(1,2,3)]] by auto
  have "store_elem m ?p j v = Inr (poke m (block_of ?p) j v)"
    by (subst v(1)) (simp add: store_elem_def poke_def v(2,3) assms)
  then show ?thesis
    by (simp add: write2_def square_matrix_row(1)[OF assms(1,2,3)])
qed

lemma poke_simps:
  "tables (poke m r j v) = tables m"
  "length (rows (poke m r j v)) = length (rows m)"
  "row_table (poke m r j v) M = row_table m M"
  "r' \<noteq> r \<Longrightarrow> rows (poke m r j v) ! r' = rows m ! r'"
  by (auto simp: poke_def row_table_def split: ptr.splits)

lemma poke_row_length: "length (rows (poke m r j v) ! r') = length (rows m ! r')"
  by (cases "r < length (rows m)"; cases "r' = r") (simp_all add: poke_def not_less list_update_beyond)

lemma poke_valid_row: "valid_row (poke m r j v) n p = valid_row m n p"
  by (simp add: valid_row_def poke_simps poke_row_length split: ptr.splits)

lemma poke_square: "square_matrix (poke m r j v) M n = square_matrix m M n"
  by (simp add: square_matrix_def poke_simps poke_valid_row[abs_def] split: ptr.splits)

lemma poke_operands: "operands (poke m r j v) A B C n = operands m A B C n"
  by (simp add: operands_def poke_square separate_def poke_simps)

lemma mac_ok:
  assumes "operands m A B C n" "in_range n (i, k, j)"
  shows "mac A B C i k j m =
     Inr (poke m (block_of (row_table m C ! nat i)) j
            (elem m C i j + elem m A i k * elem m B k j))"
  using assms
  by (simp add: mac_def operands_def in_range_def read2_ok[where n = n] write2_ok[where n = n])

section \<open>What a run of multiply-accumulates leaves in memory\<close>

lemma row_ptr_facts:
  assumes "square_matrix m M n" "0 \<le> i" "i < n"
  shows "row_table m M ! nat i = Ptr (block_of (row_table m M ! nat i))"
    and "block_of (row_table m M ! nat i) < length (rows m)"
    and "int (length (rows m ! block_of (row_table m M ! nat i))) = n"
    and "Ptr (block_of (row_table m M ! nat i)) \<in> set (row_table m M)"
proof -
  let ?p = "row_table m M ! nat i"
  have v: "?p = Ptr (block_of ?p) \<and> block_of ?p < length (rows m) \<and>
      int (length (rows m ! block_of ?p)) = n"
    by (rule valid_row_block[OF square_matrix_row(2)[OF assms]])
  show "?p = Ptr (block_of ?p)" "block_of ?p < length (rows m)"
    "int (length (rows m ! block_of ?p)) = n"
    using v by blast+
  have "?p \<in> set (row_table m M)"
    by (rule square_matrix_row(3)[OF assms])
  with v show "Ptr (block_of ?p) \<in> set (row_table m M)"
    by metis
qed

lemma poke_elem_frame:
  assumes "square_matrix m M n" "0 \<le> i" "i < n" "Ptr r \<notin> set (row_table m M)"
  shows "elem (poke m r j v) M i j' = elem m M i j'"
proof -
  have "block_of (row_table m M ! nat i) \<noteq> r"
    using row_ptr_facts(4)[OF assms(1,2,3)] assms(4) by auto
  then show ?thesis
    by (simp add: elem_def poke_simps)
qed

lemma poke_elem_target:
  assumes sq: "square_matrix m C n" and d: "distinct (row_table m C)"
    and i: "0 \<le> i" "i < n" and j: "0 \<le> j" "j < n"
    and i': "0 \<le> i'" "i' < n" and j': "0 \<le> j'" "j' < n"
  shows "elem (poke m (block_of (row_table m C ! nat i)) j v) C i' j' =
         (if i' = i \<and> j' = j then v else elem m C i' j')"
proof (cases "i' = i")
  case True
  let ?r = "block_of (row_table m C ! nat i)"
  have r: "?r < length (rows m)" "int (length (rows m ! ?r)) = n"
    using row_ptr_facts(2,3)[OF sq i] by auto
  have "rows (poke m ?r j v) ! ?r ! nat j' = (if j' = j then v else rows m ! ?r ! nat j')"
    using r j j' by (auto simp: poke_def nth_list_update)
  then show ?thesis
    using True by (simp add: elem_def poke_simps)
next
  case False
  have len: "int (length (row_table m C)) = n"
    by (rule square_matrix_row(4)[OF sq i])
  have "row_table m C ! nat i' \<noteq> row_table m C ! nat i"
    using False d len i i' by (auto simp: nth_eq_iff_index_eq)
  then have "block_of (row_table m C ! nat i') \<noteq> block_of (row_table m C ! nat i)"
    using row_ptr_facts(1)[OF sq i] row_ptr_facts(1)[OF sq i'] by metis
  then show ?thesis
    using False by (simp add: elem_def poke_simps)
qed

lemma ks_of_Cons:
  "ks_of i j ((i0, k0, j0) # ts) = (if i0 = i \<and> j0 = j then k0 # ks_of i j ts else ks_of i j ts)"
  by (simp add: ks_of_def)

lemma ks_of_Nil: "ks_of i j [] = []"
  by (simp add: ks_of_def)

lemma ks_of_in_range:
  "list_all (in_range n) ts \<Longrightarrow> k \<in> set (ks_of i j ts) \<Longrightarrow> 0 \<le> k \<and> k < n"
  by (auto simp: ks_of_def list_all_iff in_range_def)

lemma dot_acc_cong:
  assumes "\<And>k. k \<in> set ks \<Longrightarrow> elem m1 A i k = elem m A i k \<and> elem m1 B k j = elem m B k j"
  shows "dot_acc m1 A B i j c ks = dot_acc m A B i j c ks"
  using assms unfolding dot_acc_def
  by (induction ks arbitrary: c) simp_all

lemma result_of_refl: "result_of m A B C n [] m"
  by (simp add: result_of_def ks_of_Nil dot_acc_def)

lemma result_of_step:
  assumes ops: "operands m A B C n" and t: "in_range n (i, k, j)"
    and all: "list_all (in_range n) ts"
    and m1: "m1 = poke m (block_of (row_table m C ! nat i)) j
                (elem m C i j + elem m A i k * elem m B k j)"
    and rest: "result_of m1 A B C n ts m'"
  shows "result_of m A B C n ((i, k, j) # ts) m'"
proof -
  let ?r = "block_of (row_table m C ! nat i)"
  let ?v = "elem m C i j + elem m A i k * elem m B k j"
  have sqA: "square_matrix m A n" and sqB: "square_matrix m B n" and sqC: "square_matrix m C n"
    and sep: "separate m A B C"
    using ops by (auto simp: operands_def)
  have ir: "0 \<le> i" "i < n" "0 \<le> k" "k < n" "0 \<le> j" "j < n"
    using t by (auto simp: in_range_def)
  have rC: "Ptr ?r \<in> set (row_table m C)"
    by (rule row_ptr_facts(4)[OF sqC ir(1,2)])
  have rA: "Ptr ?r \<notin> set (row_table m A)" and rB: "Ptr ?r \<notin> set (row_table m B)"
    using rC sep by (auto simp: separate_def)
  have tab: "row_table m1 C = row_table m C"
    by (simp add: m1 poke_simps)
  have frameA: "\<And>i' k'. 0 \<le> i' \<Longrightarrow> i' < n \<Longrightarrow> elem m1 A i' k' = elem m A i' k'"
    by (simp add: m1 poke_elem_frame[OF sqA _ _ rA])
  have frameB: "\<And>i' k'. 0 \<le> i' \<Longrightarrow> i' < n \<Longrightarrow> elem m1 B i' k' = elem m B i' k'"
    by (simp add: m1 poke_elem_frame[OF sqB _ _ rB])
  have cell: "\<And>i' j'. 0 \<le> i' \<Longrightarrow> i' < n \<Longrightarrow> 0 \<le> j' \<Longrightarrow> j' < n \<Longrightarrow>
      elem m' C i' j' =
      dot_acc m A B i' j' (elem m C i' j') (ks_of i' j' ((i, k, j) # ts))"
  proof -
    fix i' j' assume r': "0 \<le> i'" "i' < n" "0 \<le> j'" "j' < n"
    have "elem m' C i' j' = dot_acc m1 A B i' j' (elem m1 C i' j') (ks_of i' j' ts)"
      using rest r' by (simp add: result_of_def)
    also have "\<dots> = dot_acc m A B i' j' (elem m1 C i' j') (ks_of i' j' ts)"
      by (rule dot_acc_cong) (use ks_of_in_range[OF all] frameA frameB r' in blast)
    also have "elem m1 C i' j' = (if i' = i \<and> j' = j then ?v else elem m C i' j')"
      unfolding m1 using sep
      by (intro poke_elem_target[OF sqC _ ir(1,2,5,6) r']) (simp add: separate_def)
    finally show "elem m' C i' j' =
        dot_acc m A B i' j' (elem m C i' j') (ks_of i' j' ((i, k, j) # ts))"
      by (simp add: ks_of_Cons dot_acc_def)
  qed
  have fr: "\<And>r. Ptr r \<notin> set (row_table m C) \<Longrightarrow> rows m' ! r = rows m ! r"
  proof -
    fix r assume n: "Ptr r \<notin> set (row_table m C)"
    then have "r \<noteq> ?r" using rC by auto
    then have "rows m1 ! r = rows m ! r" by (simp add: m1 poke_simps)
    moreover have "rows m' ! r = rows m1 ! r"
      using rest n tab by (simp add: result_of_def)
    ultimately show "rows m' ! r = rows m ! r" by simp
  qed
  have "tables m' = tables m" "length (rows m') = length (rows m)"
    "\<And>r. length (rows m' ! r) = length (rows m ! r)"
    using rest by (simp_all add: result_of_def m1 poke_simps poke_row_length)
  with cell fr show ?thesis
    unfolding result_of_def by blast
qed

lemma run_macs_result:
  "operands m A B C n \<Longrightarrow> list_all (in_range n) ts \<Longrightarrow>
   \<exists>m'. run_list (mac_step A B C) ts m = Some (Inr m') \<and> result_of m A B C n ts m'"
proof (induction ts arbitrary: m)
  case Nil
  then show ?case by (simp add: result_of_refl)
next
  case (Cons t ts)
  obtain i k j where t: "t = (i, k, j)" by (cases t) auto
  let ?m1 = "poke m (block_of (row_table m C ! nat i)) j
                (elem m C i j + elem m A i k * elem m B k j)"
  have ir: "in_range n (i, k, j)" and all: "list_all (in_range n) ts"
    using Cons.prems(2) t by auto
  have step: "mac A B C i k j m = Inr ?m1"
    by (rule mac_ok[OF Cons.prems(1) ir])
  have "operands ?m1 A B C n"
    using Cons.prems(1) by (simp add: poke_operands)
  from Cons.IH[OF this all] obtain m' where
    run: "run_list (mac_step A B C) ts ?m1 = Some (Inr m')" and res: "result_of ?m1 A B C n ts m'"
    by blast
  have "result_of m A B C n ((i, k, j) # ts) m'"
    by (rule result_of_step[OF Cons.prems(1) ir all refl res])
  then show ?case
    by (simp add: t mac_step_apply step run)
qed

section \<open>The accumulation order of each cell\<close>

lemma ks_of_append: "ks_of i j (xs @ ys) = ks_of i j xs @ ks_of i j ys"
  by (simp add: ks_of_def)

lemma ks_of_concat: "ks_of i j (concat xss) = concat (map (ks_of i j) xss)"
  by (induction xss) (simp_all add: ks_of_append ks_of_Nil)

lemma ks_of_line:
  "distinct js \<Longrightarrow>
   ks_of i j (map (\<lambda>j'. (i0, k0, j')) js) = (if i0 = i \<and> j \<in> set js then [k0] else [])"
  by (induction js) (auto simp: ks_of_Cons ks_of_Nil)

lemma concat_const_list: "concat (map (\<lambda>k. if c then [k] else []) ks) = (if c then ks else [])"
  by (induction ks) auto

lemma concat_select:
  "distinct xs \<Longrightarrow>
   concat (map (\<lambda>x. if x = a \<and> c then K else []) xs) = (if a \<in> set xs \<and> c then K else [])"
  by (induction xs) auto

lemma ks_of_box:
  assumes "distinct is" "distinct js"
  shows "ks_of i j (box is ks js) = (if i \<in> set is \<and> j \<in> set js then ks else [])"
proof -
  have "ks_of i j (box is ks js) =
      concat (map (\<lambda>i0. concat (map (\<lambda>k0. if i0 = i \<and> j \<in> set js then [k0] else []) ks)) is)"
    by (simp add: box_def ks_of_concat comp_def ks_of_line[OF assms(2)])
  also have "\<dots> = concat (map (\<lambda>i0. if i0 = i \<and> j \<in> set js then ks else []) is)"
    by (simp only: concat_const_list)
  also have "\<dots> = (if i \<in> set is \<and> j \<in> set js then ks else [])"
    by (rule concat_select[OF assms(1)])
  finally show ?thesis .
qed

lemma tile_values_upto: "tile_values off bs n = [off..min_c (off + bs) n - 1]"
  by (simp add: tile_values_def loop_values_unit)

lemma tile_values_mem:
  "x \<in> set (tile_values off bs n) \<longleftrightarrow> off \<le> x \<and> x < off + bs \<and> x < n"
  by (auto simp: tile_values_upto min_c_def)

lemma tiles_cover:
  "0 < bs \<Longrightarrow> concat (map (\<lambda>off. tile_values off bs n) (loop_values v n bs)) = [v..n - 1]"
proof (induction v n bs rule: loop_values.induct)
  case (1 v hi step)
  show ?case
  proof (cases "v < hi")
    case False
    then show ?thesis by (subst loop_values.simps) simp
  next
    case True
    have ih: "concat (map (\<lambda>off. tile_values off step hi) (loop_values (v + step) hi step)) =
        [v + step..hi - 1]"
      using 1 True by simp
    have "[v..min_c (v + step) hi - 1] @ [v + step..hi - 1] = [v..hi - 1]"
    proof (cases "v + step < hi")
      case True
      then show ?thesis
        using 1(2) upto_split2[of v "v + step - 1" "hi - 1"] by (simp add: min_c_def)
    next
      case False
      then show ?thesis by (simp add: min_c_def)
    qed
    then show ?thesis
      using True 1(2) by (subst loop_values.simps) (simp add: ih[unfolded tile_values_upto] tile_values_upto)
  qed
qed

lemma tile_select:
  "0 < bs \<Longrightarrow> v \<le> i \<Longrightarrow>
   concat (map (\<lambda>off. if i \<in> set (tile_values off bs n) then K else []) (loop_values v n bs)) =
     (if i < n then K else [])"
proof (induction v n bs rule: loop_values.induct)
  case (1 v hi step)
  show ?case
  proof (cases "v < hi")
    case False
    then show ?thesis using 1(3) by (subst loop_values.simps) simp
  next
    case True
    note lt = True
    show ?thesis
    proof (cases "i < v + step")
      case True
      have "\<And>off. off \<in> set (loop_values (v + step) hi step) \<Longrightarrow>
          i \<notin> set (tile_values off step hi)"
        using True by (fastforce simp: tile_values_mem dest: loop_values_bounds)
      then have "concat (map (\<lambda>off. if i \<in> set (tile_values off step hi) then K else [])
          (loop_values (v + step) hi step)) = []"
        by simp
      then show ?thesis
        using lt 1(2,3) True by (subst loop_values.simps) (simp add: tile_values_mem)
    next
      case False
      then have "concat (map (\<lambda>off. if i \<in> set (tile_values off step hi) then K else [])
          (loop_values (v + step) hi step)) = (if i < hi then K else [])"
        using 1 lt by simp
      then show ?thesis
        using lt 1(2,3) False by (subst loop_values.simps) (simp add: tile_values_mem)
    qed
  qed
qed

lemma distinct_tile_values: "distinct (tile_values off bs n)"
  by (simp add: tile_values_upto)

lemma ks_of_standard_order:
  assumes "0 \<le> i" "i < n" "0 \<le> j" "j < n"
  shows "ks_of i j (standard_order n) = [0..n - 1]"
  using assms by (simp add: standard_order_def ks_of_box loop_values_unit)

lemma ks_of_blocked_order:
  assumes bs: "0 < bs" and r: "0 \<le> i" "i < n" "0 \<le> j" "j < n"
  shows "ks_of i j (blocked_order n bs) = [0..n - 1]"
proof -
  let ?L = "loop_values 0 n bs"
  let ?T = "\<lambda>off. tile_values off bs n"
  have "ks_of i j (blocked_order n bs) =
      concat (map (\<lambda>ii. concat (map (\<lambda>jj. concat (map (\<lambda>kk.
        if i \<in> set (?T ii) \<and> j \<in> set (?T jj) then ?T kk else []) ?L)) ?L)) ?L)"
    by (simp add: blocked_order_def ks_of_concat comp_def tile_order_def ks_of_box
        distinct_tile_values)
  also have "\<dots> = concat (map (\<lambda>ii. if i \<in> set (?T ii) then
        concat (map (\<lambda>jj. if j \<in> set (?T jj) then concat (map ?T ?L) else []) ?L) else []) ?L)"
    by (intro arg_cong[where f = concat] map_cong refl) (auto intro!: arg_cong[where f = concat])
  also have "\<dots> = [0..n - 1]"
    using r by (simp add: tile_select[OF bs] tiles_cover[OF bs])
  finally show ?thesis .
qed

lemma in_range_box:
  assumes "\<And>x. x \<in> set is \<union> set ks \<union> set js \<Longrightarrow> 0 \<le> x \<and> x < n"
  shows "list_all (in_range n) (box is ks js)"
  using assms by (auto simp: list_all_iff box_def in_range_def)

lemma in_range_standard_order: "list_all (in_range n) (standard_order n)"
  unfolding standard_order_def
  by (rule in_range_box) (use loop_values_bounds in auto)

lemma in_range_blocked_order:
  assumes "0 < bs"
  shows "list_all (in_range n) (blocked_order n bs)"
proof -
  have "\<And>off x. off \<in> set (loop_values 0 n bs) \<Longrightarrow> x \<in> set (tile_values off bs n) \<Longrightarrow>
      0 \<le> x \<and> x < n"
    by (fastforce simp: tile_values_mem dest: loop_values_bounds)
  then have "\<And>ii jj kk. ii \<in> set (loop_values 0 n bs) \<Longrightarrow> jj \<in> set (loop_values 0 n bs) \<Longrightarrow>
      kk \<in> set (loop_values 0 n bs) \<Longrightarrow> list_all (in_range n) (tile_order n bs ii jj kk)"
    unfolding tile_order_def by (intro in_range_box) auto
  then show ?thesis
    by (auto simp: blocked_order_def list_all_iff)
qed

section \<open>Runs with the same per-cell order leave the same memory\<close>

lemma row_table_tables: "tables m' = tables m \<Longrightarrow> row_table m' M = row_table m M"
  by (simp add: row_table_def split: ptr.splits)

lemma result_of_elem_rows:
  assumes ops: "operands m A B C n" and res: "result_of m A B C n ts m'"
    and i: "0 \<le> i" "i < n"
  shows "rows m' ! block_of (row_table m C ! nat i) =
         map (\<lambda>j. dot_acc m A B i (int j) (elem m C i (int j)) (ks_of i (int j) ts)) [0..<nat n]"
proof -
  let ?r = "block_of (row_table m C ! nat i)"
  have sqC: "square_matrix m C n" using ops by (simp add: operands_def)
  have tab: "row_table m' C = row_table m C"
    using res by (intro row_table_tables) (simp add: result_of_def)
  have len: "length (rows m' ! ?r) = nat n"
    using res row_ptr_facts(3)[OF sqC i] by (simp add: result_of_def)
  show ?thesis
  proof (rule nth_equalityI)
    show "length (rows m' ! ?r) = length (map (\<lambda>j. dot_acc m A B i (int j) (elem m C i (int j))
        (ks_of i (int j) ts)) [0..<nat n])"
      by (simp add: len)
  next
    fix j assume "j < length (rows m' ! ?r)"
    then have j: "j < nat n" by (simp add: len)
    then have "elem m' C i (int j) =
        dot_acc m A B i (int j) (elem m C i (int j)) (ks_of i (int j) ts)"
      using res i by (simp add: result_of_def)
    then show "rows m' ! ?r ! j = map (\<lambda>j. dot_acc m A B i (int j) (elem m C i (int j))
        (ks_of i (int j) ts)) [0..<nat n] ! j"
      using j by (simp add: elem_def tab)
  qed
qed

lemma result_of_unique:
  assumes ops: "operands m A B C n"
    and r1: "result_of m A B C n ts1 m1" and r2: "result_of m A B C n ts2 m2"
    and ks: "\<And>i j. 0 \<le> i \<Longrightarrow> i < n \<Longrightarrow> 0 \<le> j \<Longrightarrow> j < n \<Longrightarrow> ks_of i j ts1 = ks_of i j ts2"
  shows "m1 = m2"
proof -
  have sqC: "square_matrix m C n" using ops by (simp add: operands_def)
  have "rows m1 = rows m2"
  proof (rule nth_equalityI)
    show "length (rows m1) = length (rows m2)"
      using r1 r2 by (simp add: result_of_def)
  next
    fix r assume "r < length (rows m1)"
    show "rows m1 ! r = rows m2 ! r"
    proof (cases "Ptr r \<in> set (row_table m C)")
      case False
      then show ?thesis using r1 r2 by (simp add: result_of_def)
    next
      case True
      then obtain a where a: "a < length (row_table m C)" "row_table m C ! a = Ptr r"
        by (auto simp: in_set_conv_nth)
      have len: "int (length (row_table m C)) = n"
        using sqC by (auto simp: square_matrix_def row_table_def split: ptr.splits)
      have i: "0 \<le> int a" "int a < n" using a(1) len by auto
      have r: "block_of (row_table m C ! nat (int a)) = r"
        using a(2) by (simp add: block_of_def)
      have "map (\<lambda>j. dot_acc m A B (int a) (int j) (elem m C (int a) (int j))
                (ks_of (int a) (int j) ts1)) [0..<nat n] =
            map (\<lambda>j. dot_acc m A B (int a) (int j) (elem m C (int a) (int j))
                (ks_of (int a) (int j) ts2)) [0..<nat n]"
        using i by (intro map_cong refl) (simp add: ks)
      then show ?thesis
        using result_of_elem_rows[OF ops r1 i] result_of_elem_rows[OF ops r2 i]
        unfolding r by simp
    qed
  qed
  moreover have "tables m1 = tables m2"
    using r1 r2 by (simp add: result_of_def)
  ultimately show ?thesis
    by simp
qed


lemma standard_result:
  assumes "operands m A B C n" "n \<le> INT_MAX"
  shows "\<exists>m'. matrix_multiply_standard A B C n m = Some (Inr m') \<and>
           result_of m A B C n (standard_order n) m'"
  unfolding standard_unrolled[OF assms(2)]
  by (rule run_macs_result[OF assms(1) in_range_standard_order])

lemma blocked_result:
  assumes "operands m A B C n" "0 < bs" "last_counter n bs \<le> INT_MAX"
  shows "\<exists>m'. matrix_multiply_blocked A B C n bs m = Some (Inr m') \<and>
           result_of m A B C n (blocked_order n bs) m'"
  unfolding blocked_unrolled[OF assms(2,3)]
  by (rule run_macs_result[OF assms(1) in_range_blocked_order[OF assms(2)]])

lemma blocked_eq_standard:
  assumes ops: "operands m A B C n" and bs: "0 < bs" "last_counter n bs \<le> INT_MAX"
  shows "matrix_multiply_blocked A B C n bs m = matrix_multiply_standard A B C n m"
proof -
  have n: "n \<le> INT_MAX"
    using dimension_fits[OF bs(1), of n] bs(2) by simp
  obtain m1 where m1: "matrix_multiply_blocked A B C n bs m = Some (Inr m1)"
      "result_of m A B C n (blocked_order n bs) m1"
    using blocked_result[OF ops bs] by blast
  obtain m2 where m2: "matrix_multiply_standard A B C n m = Some (Inr m2)"
      "result_of m A B C n (standard_order n) m2"
    using standard_result[OF ops n] by blast
  have "m1 = m2"
    by (rule result_of_unique[OF ops m1(2) m2(2)])
       (simp add: ks_of_blocked_order[OF bs(1)] ks_of_standard_order)
  then show ?thesis
    by (simp add: m1(1) m2(1))
qed

lemma cleared_elem:
  assumes "square_matrix m M n" "cleared m M" "0 \<le> i" "i < n" "0 \<le> j" "j < n"
  shows "elem m M i j = 0"
proof -
  let ?p = "row_table m M ! nat i"
  have "?p \<in> set (row_table m M)"
    by (rule square_matrix_row(3)[OF assms(1,3,4)])
  then have z: "list_all (\<lambda>x. x = 0) (rows m ! block_of ?p)"
    using assms(2) by (simp add: cleared_def list_all_iff)
  have "nat j < length (rows m ! block_of ?p)"
    using row_ptr_facts(3)[OF assms(1,3,4)] assms(5,6) by simp
  with z show ?thesis
    by (simp add: elem_def list_all_length)
qed

lemma last_counter_self: "1 \<le> n \<Longrightarrow> last_counter n n = n"
proof -
  assume n: "1 \<le> n"
  have "(n + n - 1) div n = 1"
    by (rule int_div_pos_eq[of _ _ _ "n - 1"]) (use n in simp_all)
  then show ?thesis
    by (simp add: last_counter_def)
qed

section \<open>The kernels: results\<close>

lemma mem3_operands: "operands mem3 (Ptr 0) (Ptr 1) (Ptr 2) 3"
  by (simp add: operands_def mem3_def square_matrix_def valid_row_def separate_def row_table_def)

lemma mem3_cleared: "cleared mem3 (Ptr 2)"
  by (simp add: cleared_def mem3_def row_table_def block_of_def)

lemma mem3_standard_run:
  "matrix_multiply_standard (Ptr 0) (Ptr 1) (Ptr 2) 3 mem3 =
     Some (Inr (mem3\<lparr>rows := [[1, 2, 3], [4, 5, 6], [7, 8, 9],
                              [1, 0, 2], [0, 1, 0], [3, 0, 1],
                              [10, 2, 5], [22, 5, 14], [34, 8, 23]]\<rparr>))"
  by code_simp

lemma mem3_blocked_run:
  "matrix_multiply_blocked (Ptr 0) (Ptr 1) (Ptr 2) 3 2 mem3 =
     Some (Inr (mem3\<lparr>rows := [[1, 2, 3], [4, 5, 6], [7, 8, 9],
                              [1, 0, 2], [0, 1, 0], [3, 0, 1],
                              [10, 2, 5], [22, 5, 14], [34, 8, 23]]\<rparr>))"
  by code_simp

lemma ragged3_standard_run:
  "matrix_multiply_standard (Ptr 0) (Ptr 1) (Ptr 2) 3 ragged3 = Some (Inl OutOfBounds)"
  by code_simp

lemma ragged3_ijk_run:
  "ijk_nest (Ptr 0) (Ptr 1) (Ptr 2) 3 3 3 ragged3 = Some (Inl NullPointer)"
  by code_simp

text \<open>
  Claim C3. \<open>matrix_multiply_standard\<close> runs the statement
  \<open>C[i][j] += A[i][k] * B[k][j]\<close> over the index triples in the order \<open>standard_order n\<close>:
  \<open>i\<close> outermost, \<open>k\<close> in the middle, \<open>j\<close> innermost, each from \<open>0\<close> to \<open>n - 1\<close>. This holds
  on every memory \<open>m\<^sub>0\<close>, well-formed or not, so it fixes the order of the accesses and not
  only the result (on \<open>ragged3\<close> the i-k-j order stops at \<open>B[0][2]\<close>, the i-j-k order at
  \<open>B[1][0]\<close>). And for all \<open>n \<times> n\<close> matrices \<open>A\<close>, \<open>B\<close> and a cleared accumulator \<open>C\<close> in a
  memory \<open>m\<close>, the kernel returns, and then
  \<open>C[i][j] = (\<dots>((0 + A[i][0] * B[0][j]) + A[i][1] * B[1][j]) + \<dots>) + A[i][n-1] * B[n-1][j]\<close>
  for all \<open>i\<close>, \<open>j\<close> in \<open>[0, n)\<close>: the sum over \<open>k\<close>, accumulated in ascending order of \<open>k\<close>.
  The hypothesis \<open>n \<le> INT_MAX\<close> says that \<open>n\<close> is a C \<open>int\<close>.
\<close>

theorem standard_computes_product:
  fixes m m\<^sub>0 :: "('a::{plus,times,zero}) memory"
  assumes "n \<le> INT_MAX"
  shows "standard_order n =
           concat (map (\<lambda>i. concat (map (\<lambda>k. map (\<lambda>j. (i, k, j)) [0..n - 1]) [0..n - 1]))
             [0..n - 1]) \<and>
         matrix_multiply_standard A B C n m\<^sub>0 =
           run_list (\<lambda>(i, k, j) m. Some (mac A B C i k j m)) (standard_order n) m\<^sub>0 \<and>
         (operands m A B C n \<and> cleared m C \<longrightarrow>
            (\<exists>m'. matrix_multiply_standard A B C n m = Some (Inr m') \<and>
               (\<forall>i j. 0 \<le> i \<and> i < n \<and> 0 \<le> j \<and> j < n \<longrightarrow>
                  elem m' C i j =
                  foldl (\<lambda>acc k. acc + elem m A i k * elem m B k j) 0 [0..n - 1])))"
proof (intro conjI impI)
  show "standard_order n =
      concat (map (\<lambda>i. concat (map (\<lambda>k. map (\<lambda>j. (i, k, j)) [0..n - 1]) [0..n - 1])) [0..n - 1])"
    by (simp add: standard_order_def box_def loop_values_unit)
  show "matrix_multiply_standard A B C n m\<^sub>0 =
      run_list (\<lambda>(i, k, j) m. Some (mac A B C i k j m)) (standard_order n) m\<^sub>0"
    using standard_unrolled[OF assms] by (simp add: mac_step_def)
next
  assume h: "operands m A B C n \<and> cleared m C"
  then have ops: "operands m A B C n" and clr: "cleared m C"
    by simp_all
  obtain m' where run: "matrix_multiply_standard A B C n m = Some (Inr m')"
    and res: "result_of m A B C n (standard_order n) m'"
    using standard_result[OF ops assms] by blast
  have sqC: "square_matrix m C n"
    using ops by (simp add: operands_def)
  have "elem m' C i j = foldl (\<lambda>acc k. acc + elem m A i k * elem m B k j) 0 [0..n - 1]"
    if "0 \<le> i \<and> i < n \<and> 0 \<le> j \<and> j < n" for i j
  proof -
    have "elem m' C i j = dot_acc m A B i j (elem m C i j) (ks_of i j (standard_order n))"
      using res that by (simp add: result_of_def)
    also have "elem m C i j = 0"
      using cleared_elem[OF sqC clr] that by simp
    also have "ks_of i j (standard_order n) = [0..n - 1]"
      using ks_of_standard_order that by simp
    finally show ?thesis
      by (simp add: dot_acc_def)
  qed
  then show "\<exists>m'. matrix_multiply_standard A B C n m = Some (Inr m') \<and>
      (\<forall>i j. 0 \<le> i \<and> i < n \<and> 0 \<le> j \<and> j < n \<longrightarrow>
         elem m' C i j = foldl (\<lambda>acc k. acc + elem m A i k * elem m B k j) 0 [0..n - 1])"
    using run by blast
qed

theorem standard_computes_product_witness:
  "(3::int) \<le> INT_MAX \<and> operands mem3 (Ptr 0) (Ptr 1) (Ptr 2) 3 \<and> cleared mem3 (Ptr 2) \<and>
   standard_order 3 =
     concat (map (\<lambda>i. concat (map (\<lambda>k. map (\<lambda>j. (i, k, j)) [0..3 - 1]) [0..3 - 1])) [0..3 - 1]) \<and>
   run_list (\<lambda>(i, k, j) m. Some (mac (Ptr 0) (Ptr 1) (Ptr 2) i k j m)) (standard_order 3) ragged3 =
     Some (Inl OutOfBounds) \<and>
   (\<exists>m'. matrix_multiply_standard (Ptr 0) (Ptr 1) (Ptr 2) 3 mem3 = Some (Inr m') \<and>
      (\<forall>i j. 0 \<le> i \<and> i < 3 \<and> 0 \<le> j \<and> j < 3 \<longrightarrow>
         elem m' (Ptr 2) i j =
         foldl (\<lambda>acc k. acc + elem mem3 (Ptr 0) i k * elem mem3 (Ptr 1) k j) 0 [0..3 - 1]))"
proof -
  have n: "(3::int) \<le> INT_MAX"
    by (simp add: INT_MAX_def)
  from standard_computes_product[OF n, of "Ptr 0" "Ptr 1" "Ptr 2" ragged3 mem3]
    mem3_operands n mem3_cleared ragged3_standard_run
  show ?thesis
    by simp
qed

text \<open>
  Claim C1. For every dimension \<open>n\<close>, every block size \<open>S\<close> with \<open>1 \<le> S \<le> n\<close> and all
  \<open>n \<times> n\<close> matrices \<open>A\<close>, \<open>B\<close> with an accumulator \<open>C\<close> in memory, \<open>matrix_multiply_blocked\<close>
  and \<open>matrix_multiply_standard\<close> both return, and they leave the same memory: every
  element of \<open>C\<close> is equal, with no tolerance, because both kernels accumulate each cell
  over \<open>k\<close> in ascending order. (The accumulator need not even be cleared.) The same holds
  for the degenerate block size \<open>S = n\<close>. The hypothesis \<open>last_counter n S \<le> INT_MAX\<close> says
  that the block counters stay C \<open>int\<close>s when they are incremented past the last tile; it
  holds whenever \<open>n + S \<le> 2^31\<close>, and for \<open>S = n\<close> whenever \<open>n\<close> is a C \<open>int\<close>.
\<close>

theorem blocked_refines_standard:
  fixes m :: "('a::{plus,times}) memory"
  assumes "operands m A B C n" and "1 \<le> S" and "S \<le> n" and "last_counter n S \<le> INT_MAX"
  shows "\<exists>m'. matrix_multiply_standard A B C n m = Some (Inr m') \<and>
           matrix_multiply_blocked A B C n S m = Some (Inr m') \<and>
           matrix_multiply_blocked A B C n n m = Some (Inr m')"
proof -
  have S: "0 < S" and n: "0 < n" "1 \<le> n"
    using assms(2,3) by simp_all
  have nmax: "n \<le> INT_MAX"
    using dimension_fits[OF S, of n] assms(4) by simp
  obtain m' where run: "matrix_multiply_standard A B C n m = Some (Inr m')"
    using standard_result[OF assms(1) nmax] by blast
  have "matrix_multiply_blocked A B C n S m = matrix_multiply_standard A B C n m"
    by (rule blocked_eq_standard[OF assms(1) S assms(4)])
  moreover have "matrix_multiply_blocked A B C n n m = matrix_multiply_standard A B C n m"
    by (rule blocked_eq_standard[OF assms(1) n(1)]) (simp add: last_counter_self[OF n(2)] nmax)
  ultimately show ?thesis
    using run by simp
qed

theorem blocked_refines_standard_witness:
  "operands mem3 (Ptr 0) (Ptr 1) (Ptr 2) 3 \<and> (1::int) \<le> 2 \<and> (2::int) \<le> 3 \<and>
   last_counter 3 2 \<le> INT_MAX \<and>
   (\<exists>m'. matrix_multiply_standard (Ptr 0) (Ptr 1) (Ptr 2) 3 mem3 = Some (Inr m') \<and>
      matrix_multiply_blocked (Ptr 0) (Ptr 1) (Ptr 2) 3 2 mem3 = Some (Inr m') \<and>
      matrix_multiply_blocked (Ptr 0) (Ptr 1) (Ptr 2) 3 3 mem3 = Some (Inr m'))"
proof -
  have c: "last_counter 3 2 \<le> INT_MAX"
    by (simp add: last_counter_def INT_MAX_def)
  have "(1::int) \<le> 2" and "(2::int) \<le> 3"
    by simp_all
  from blocked_refines_standard[OF mem3_operands this c] mem3_operands c
  show ?thesis
    by simp
qed

section \<open>The frame of the kernels\<close>

lemma frame_refl: "frame m C m"
  by (simp add: frame_def)

lemma frame_trans:
  assumes "frame a C b" "frame b C c"
  shows "frame a C c"
proof -
  have "row_table b C = row_table a C"
    using assms(1) by (intro row_table_tables) (simp add: frame_def)
  then show ?thesis
    using assms by (simp add: frame_def)
qed

lemma for_loop_preserves:
  fixes R :: "'s \<Rightarrow> 's \<Rightarrow> bool" and body :: "int \<Rightarrow> 's \<Rightarrow> (fault + 's) option"
  assumes r: "\<And>s. R s s" and t: "\<And>a b c. R a b \<Longrightarrow> R b c \<Longrightarrow> R a c"
    and run: "for_loop v hi step body s = Some (Inr s')"
    and b: "\<And>w t t'. body w t = Some (Inr t') \<Longrightarrow> R t t'"
  shows "R s s'"
proof -
  define P where "P = (\<lambda>(v::int) (hi::int) (step::int)
      (body :: int \<Rightarrow> 's \<Rightarrow> (fault + 's) option) (s::'s) (y :: fault + 's).
      (\<forall>w t t'. body w t = Some (Inr t') \<longrightarrow> R t t') \<longrightarrow> (\<forall>s'. y = Inr s' \<longrightarrow> R s s'))"
  have "P v hi step body s (Inr s')"
  proof (rule for_loop.raw_induct[where P = P, OF _ run], goal_cases)
    case (1 loop v hi step body s y)
    show ?case
      unfolding P_def
    proof (intro impI allI)
      fix s' assume bd: "\<forall>w t t'. body w t = Some (Inr t') \<longrightarrow> R t t'" and y: "y = Inr s'"
      show "R s s'"
      proof (cases "v < hi")
        case False
        with 1(2) y show ?thesis by (simp add: r)
      next
        case True
        with 1(2) y obtain s1 v1 where
          b1: "body v s = Some (Inr s1)" and l: "loop v1 hi step body s1 = Some (Inr s')"
          by (auto split: option.splits sum.splits)
        have "R s s1" using bd b1 by blast
        moreover have "R s1 s'" using 1(1)[OF l] bd by (simp add: P_def)
        ultimately show ?thesis by (rule t)
      qed
    qed
  qed
  then show ?thesis using b by (simp add: P_def)
qed

lemma for_loop_to_preserves:
  fixes R :: "'s \<Rightarrow> 's \<Rightarrow> bool" and body :: "int \<Rightarrow> 's \<Rightarrow> (fault + 's) option"
  assumes rfl: "\<And>s. R s s" and trn: "\<And>a b c. R a b \<Longrightarrow> R b c \<Longrightarrow> R a c"
    and run: "for_loop_to v bound step body s = Some (Inr s')"
    and bd: "\<And>w t t'. body w t = Some (Inr t') \<Longrightarrow> R t t'"
  shows "R s s'"
proof (cases bound)
  case (Inl f)
  with run show ?thesis by (simp add: for_loop_to_def)
next
  case (Inr hi)
  with run have l: "for_loop v hi step body s = Some (Inr s')"
    by (simp add: for_loop_to_def)
  from rfl trn l bd show ?thesis
    by (rule for_loop_preserves)
qed

lemma mac_frame:
  assumes "mac A B C i k j m = Inr m'"
  shows "frame m C m'"
proof -
  obtain v where w: "write2 m C i j v = Inr m'"
    using assms by (auto simp: mac_def split: sum.splits)
  then obtain p where p: "load_ptr m C i = Inr p" and st: "store_elem m p j v = Inr m'"
    by (auto simp: write2_def split: sum.splits)
  from p have pin: "p \<in> set (row_table m C)"
    by (auto simp: load_ptr_def row_table_def split: ptr.splits if_splits)
  from st obtain r where r: "p = Ptr r" and m': "m' = poke m r j v"
    by (auto simp: store_elem_def poke_def split: ptr.splits if_splits)
  have "rows (poke m r j v) ! r' = rows m ! r'" if "Ptr r' \<notin> set (row_table m C)" for r'
    using that pin r by (intro poke_simps(4)) auto
  then show ?thesis
    by (simp add: frame_def m' poke_simps)
qed

lemma frame_loop:
  assumes "for_loop v hi step body m = Some (Inr m')"
    and "\<And>w t t'. body w t = Some (Inr t') \<Longrightarrow> frame t C t'"
  shows "frame m C m'"
  by (rule for_loop_preserves[where R = "\<lambda>a b. frame a C b", OF frame_refl frame_trans assms])

lemma frame_loop_to:
  assumes "for_loop_to v bound step body m = Some (Inr m')"
    and "\<And>w t t'. body w t = Some (Inr t') \<Longrightarrow> frame t C t'"
  shows "frame m C m'"
  by (rule for_loop_to_preserves[where R = "\<lambda>a b. frame a C b", OF frame_refl frame_trans assms])

lemma mac_body_frame:
  "Some (mac A B C i k j t) = Some (Inr t') \<Longrightarrow> frame t C t'"
  by (simp add: mac_frame)

lemma standard_frame:
  assumes "matrix_multiply_standard A B C n m = Some (Inr m')"
  shows "frame m C m'"
  by (rule frame_loop[OF assms[unfolded matrix_multiply_standard_def]],
      erule frame_loop, erule frame_loop, erule mac_body_frame)

lemma blocked_frame:
  assumes "matrix_multiply_blocked A B C n bs m = Some (Inr m')"
  shows "frame m C m'"
  by (rule frame_loop[OF assms[unfolded matrix_multiply_blocked_def]],
      erule frame_loop, erule frame_loop, erule frame_loop_to, erule frame_loop_to,
      erule frame_loop_to, erule mac_body_frame)

text \<open>
  Claim C8. Both kernels modify only the accumulator: whenever \<open>matrix_multiply_standard\<close>
  or \<open>matrix_multiply_blocked\<close> returns (for any pointers, dimension and block size, and
  any memory), no block has been allocated or released, every row-pointer table is
  unchanged, and every element block that is not a row of \<open>C\<close> is unchanged. So \<open>A\<close> and
  \<open>B\<close> are unchanged, row tables and rows, whenever they share no row with \<open>C\<close>, which
  the data model requires of the operands.
\<close>

theorem kernels_modify_only_C:
  fixes m :: "('a::{plus,times}) memory"
  assumes "matrix_multiply_standard A B C n m = Some (Inr m') \<or>
           matrix_multiply_blocked A B C n S m = Some (Inr m')"
  shows "tables m' = tables m \<and> length (rows m') = length (rows m) \<and>
         (\<forall>r. Ptr r \<notin> set (row_table m C) \<longrightarrow> rows m' ! r = rows m ! r) \<and>
         (set (row_table m C) \<inter> (set (row_table m A) \<union> set (row_table m B)) = {} \<longrightarrow>
            row_table m' A = row_table m A \<and> row_table m' B = row_table m B \<and>
            (\<forall>r. Ptr r \<in> set (row_table m A) \<union> set (row_table m B) \<longrightarrow>
               rows m' ! r = rows m ! r))"
proof -
  have f: "frame m C m'"
    using assms standard_frame blocked_frame by blast
  then have t: "tables m' = tables m"
    by (simp add: frame_def)
  have "row_table m' A = row_table m A" "row_table m' B = row_table m B"
    by (rule row_table_tables[OF t])+
  moreover have "rows m' ! r = rows m ! r"
    if "set (row_table m C) \<inter> (set (row_table m A) \<union> set (row_table m B)) = {}"
      and "Ptr r \<in> set (row_table m A) \<union> set (row_table m B)" for r
  proof -
    have "Ptr r \<notin> set (row_table m C)" using that by blast
    then show ?thesis using f by (simp add: frame_def)
  qed
  ultimately show ?thesis
    using f by (simp add: frame_def)
qed

theorem kernels_modify_only_C_witness:
  "matrix_multiply_blocked (Ptr 0) (Ptr 1) (Ptr 2) 3 2 mem3 =
     Some (Inr (mem3\<lparr>rows := [[1, 2, 3], [4, 5, 6], [7, 8, 9],
                              [1, 0, 2], [0, 1, 0], [3, 0, 1],
                              [10, 2, 5], [22, 5, 14], [34, 8, 23]]\<rparr>)) \<and>
   set (row_table mem3 (Ptr 2)) \<inter> (set (row_table mem3 (Ptr 0)) \<union> set (row_table mem3 (Ptr 1))) = {} \<and>
   tables (mem3\<lparr>rows := [[1, 2, 3], [4, 5, 6], [7, 8, 9],
                          [1, 0, 2], [0, 1, 0], [3, 0, 1],
                          [10, 2, 5], [22, 5, 14], [34, 8, 23]]\<rparr>) = tables mem3 \<and>
   row_table (mem3\<lparr>rows := [[1, 2, 3], [4, 5, 6], [7, 8, 9],
                          [1, 0, 2], [0, 1, 0], [3, 0, 1],
                          [10, 2, 5], [22, 5, 14], [34, 8, 23]]\<rparr>) (Ptr 0) = row_table mem3 (Ptr 0)"
proof -
  have d: "set (row_table mem3 (Ptr 2)) \<inter>
      (set (row_table mem3 (Ptr 0)) \<union> set (row_table mem3 (Ptr 1))) = {}"
    by (simp add: mem3_def row_table_def)
  from kernels_modify_only_C[OF disjI2[OF mem3_blocked_run]] d mem3_blocked_run
  show ?thesis
    by blast
qed

section \<open>Tiles\<close>

lemma tile_extent:
  assumes S: "0 < S" and off: "off \<in> set (loop_values 0 n S)"
  shows "int (length (tile_values off S n)) = (if off + S \<le> n then S else n mod S)"
proof -
  have b: "0 \<le> off" "off < n"
    using loop_values_bounds[OF off] by simp_all
  have len: "int (length (tile_values off S n)) = min_c (off + S) n - off"
    using b S by (simp add: tile_values_upto min_c_def)
  show ?thesis
  proof (cases "off + S \<le> n")
    case True
    then show ?thesis by (simp add: len min_c_def)
  next
    case False
    obtain t where t: "off = t * S"
      using loop_values_multiple[OF off] by (auto simp: dvd_def mult.commute)
    have "n mod S = ((n - off) + t * S) mod S"
      by (simp add: t)
    also have "\<dots> = (n - off) mod S"
      by (rule mod_mult_self1)
    also have "\<dots> = n - off"
      using b False by simp
    finally show ?thesis
      using False by (simp add: len min_c_def)
  qed
qed

lemma last_tile_reaches_end:
  "0 < S \<Longrightarrow> v < n \<Longrightarrow> loop_values v n S \<noteq> [] \<and> n \<le> last (loop_values v n S) + S"
proof (induction v n S rule: loop_values.induct)
  case (1 v hi step)
  show ?case
  proof (cases "v + step < hi")
    case True
    then have "loop_values (v + step) hi step \<noteq> [] \<and>
        hi \<le> last (loop_values (v + step) hi step) + step"
      using 1 by simp
    then show ?thesis
      using 1(2,3) by (simp add: loop_values_step)
  next
    case False
    then have "loop_values (v + step) hi step = []"
      by (simp add: loop_values_done)
    then show ?thesis
      using 1(2,3) False by (simp add: loop_values_step)
  qed
qed

lemma last_tile_extent:
  assumes "0 < S" "0 < n" "\<not> S dvd n"
  shows "int (length (tile_values (last (loop_values 0 n S)) S n)) = n mod S"
proof -
  let ?l = "last (loop_values 0 n S)"
  have ne: "loop_values 0 n S \<noteq> []" and r: "n \<le> ?l + S"
    using last_tile_reaches_end[OF assms(1,2)] by simp_all
  have mem: "?l \<in> set (loop_values 0 n S)"
    using ne by simp
  have "S dvd ?l"
    using loop_values_multiple[OF mem] by simp
  then have "?l + S \<noteq> n"
    using assms(3) by (metis dvd_add dvd_refl)
  then have "\<not> ?l + S \<le> n" using r by simp
  then show ?thesis
    using tile_extent[OF assms(1) mem] by simp
qed

lemma tile_end_extent:
  assumes "0 \<le> off" "off < n" "0 < S" "off + S \<le> INT_MAX"
  shows "tile_end off S n = Inr (off + int (length (tile_values off S n)))"
  using assms
  by (simp add: tile_end_def add_int_def INT_MIN_def tile_values_upto min_c_def)

text \<open>
  Claim C2. For every dimension \<open>n\<close> and every block size \<open>S\<close> with \<open>1 \<le> S \<le> n\<close>, dividing
  \<open>n\<close> or not, the run of \<open>matrix_multiply_blocked\<close> is the run of the statement
  \<open>C[i][j] += A[i][k] * B[k][j]\<close> over the triples of \<open>blocked_order n S\<close>, and every one
  of these triples has \<open>i\<close>, \<open>k\<close> and \<open>j\<close> in \<open>[0, n)\<close>: no element is read or written at a
  row or column index outside \<open>[0, n)\<close>. For every tile offset \<open>off\<close> the tile loops end at
  \<open>min(off + S, n)\<close>, which is \<open>off + S\<close> for a full tile and \<open>off + n mod S\<close> for a
  clamped one; when \<open>S\<close> does not divide \<open>n\<close> the last tile along an axis has extent
  \<open>n mod S\<close>. On \<open>n \<times> n\<close> matrices, where any access at an index outside \<open>[0, n)\<close> is a
  fault, the run returns without a fault. The hypothesis on \<open>last_counter\<close> says that the
  block counters stay C \<open>int\<close>s.
\<close>

theorem blocked_accesses_in_bounds:
  fixes m :: "('a::{plus,times}) memory"
  assumes "1 \<le> S" and "S \<le> n" and "last_counter n S \<le> INT_MAX"
  shows "matrix_multiply_blocked A B C n S m =
           run_list (mac_step A B C) (blocked_order n S) m \<and>
         list_all (in_range n) (blocked_order n S) \<and>
         (\<forall>off \<in> set (loop_values 0 n S).
            tile_end off S n = Inr (off + int (length (tile_values off S n))) \<and>
            int (length (tile_values off S n)) = (if off + S \<le> n then S else n mod S)) \<and>
         (\<not> S dvd n \<longrightarrow>
            int (length (tile_values (last (loop_values 0 n S)) S n)) = n mod S) \<and>
         (operands m A B C n \<longrightarrow>
            (\<exists>m'. matrix_multiply_blocked A B C n S m = Some (Inr m')))"
proof -
  have S: "0 < S" and n: "0 < n"
    using assms(1,2) by simp_all
  have run: "matrix_multiply_blocked A B C n S m =
      run_list (mac_step A B C) (blocked_order n S) m"
    by (rule blocked_unrolled[OF S assms(3)])
  have rng: "list_all (in_range n) (blocked_order n S)"
    by (rule in_range_blocked_order[OF S])
  have tiles: "tile_end off S n = Inr (off + int (length (tile_values off S n))) \<and>
      int (length (tile_values off S n)) = (if off + S \<le> n then S else n mod S)"
    if "off \<in> set (loop_values 0 n S)" for off
  proof -
    have b: "0 \<le> off" "off < n"
      using loop_values_bounds[OF that] by simp_all
    have "off + S \<le> INT_MAX"
      using counter_fits[OF S that] assms(3) by simp
    then show ?thesis
      using tile_end_extent[OF b S] tile_extent[OF S that] by simp
  qed
  have lastt: "int (length (tile_values (last (loop_values 0 n S)) S n)) = n mod S"
    if "\<not> S dvd n"
    by (rule last_tile_extent[OF S n that])
  have ret: "\<exists>m'. matrix_multiply_blocked A B C n S m = Some (Inr m')"
    if "operands m A B C n"
    using blocked_result[OF that S assms(3)] by blast
  show ?thesis
    using run rng tiles lastt ret by blast
qed

theorem blocked_accesses_in_bounds_witness:
  "(1::int) \<le> 2 \<and> (2::int) \<le> 3 \<and> last_counter 3 2 \<le> INT_MAX \<and>
   matrix_multiply_blocked (Ptr 0) (Ptr 1) (Ptr 2) 3 2 mem3 =
     run_list (mac_step (Ptr 0) (Ptr 1) (Ptr 2)) (blocked_order 3 2) mem3 \<and>
   list_all (in_range 3) (blocked_order 3 2) \<and>
   loop_values 0 3 2 = [0, 2] \<and>
   tile_end 2 2 3 = Inr (2 + int (length (tile_values 2 2 3))) \<and>
   int (length (tile_values 2 2 3)) = 3 mod 2 \<and>
   (\<exists>m'. matrix_multiply_blocked (Ptr 0) (Ptr 1) (Ptr 2) 3 2 mem3 = Some (Inr m'))"
proof -
  have c: "last_counter 3 2 \<le> INT_MAX"
    by (simp add: last_counter_def INT_MAX_def)
  have h: "(1::int) \<le> 2" "(2::int) \<le> 3"
    by simp_all
  have l: "loop_values 0 3 2 = [0, 2]"
    by (simp add: loop_values.simps)
  note t = blocked_accesses_in_bounds[OF h c, of "Ptr 0" "Ptr 1" "Ptr 2" mem3]
  have e: "tile_end 2 2 3 = Inr (2 + int (length (tile_values 2 2 3))) \<and>
      int (length (tile_values 2 2 3)) = 3 mod 2"
    using t l by simp
  have r: "\<exists>m'. matrix_multiply_blocked (Ptr 0) (Ptr 1) (Ptr 2) 3 2 mem3 = Some (Inr m')"
    using t mem3_operands by blast
  show ?thesis
    using t h c l e r by blast
qed

section \<open>The loop-order comparison\<close>

lemma unit_loop_unroll:
  assumes "n \<le> INT_MAX"
  shows "for_loop 0 n 1 body = run_list body (loop_values 0 n 1)"
proof (rule ext, rule for_loop_unroll)
  fix x assume "x \<in> set (loop_values 0 n 1)"
  then have "x < n" using loop_values_bounds by blast
  then show "x + 1 \<le> INT_MAX" using assms by simp
qed (simp_all add: INT_MIN_def)

lemma ijk_unrolled:
  assumes "r1 \<le> INT_MAX" "c2 \<le> INT_MAX" "r2 \<le> INT_MAX"
  shows "ijk_nest A B C r1 c2 r2 m = run_list (mac_step A B C) (ijk_order r1 c2 r2) m"
proof -
  have k: "\<And>i j ks. run_list (\<lambda>k m. Some (mac A B C i k j m)) ks =
      run_list (mac_step A B C) (map (\<lambda>k. (i, k, j)) ks)"
    by (rule ext) (simp add: run_list_map mac_step_def)
  show ?thesis
    unfolding ijk_nest_def ijk_order_def unit_loop_unroll[OF assms(1)]
      unit_loop_unroll[OF assms(2)] unit_loop_unroll[OF assms(3)] k run_list_concat
    by (rule refl)
qed

lemma ikj_is_standard: "ikj_nest A B C n n n = matrix_multiply_standard A B C n"
  by (simp add: ikj_nest_def matrix_multiply_standard_def)

lemma ks_of_column:
  "ks_of i j (map (\<lambda>k. (i0, k, j0)) ks) = (if j0 = j \<and> i0 = i then ks else [])"
  by (induction ks) (auto simp: ks_of_Cons ks_of_Nil)

lemma concat_pick:
  "distinct xs \<Longrightarrow>
   concat (map (\<lambda>x. if x = a then K else []) xs) = (if a \<in> set xs then K else [])"
  using concat_select[of xs a True K] by simp

lemma ks_of_ijk_order:
  assumes "0 \<le> i" "i < n" "0 \<le> j" "j < n"
  shows "ks_of i j (ijk_order n n n) = [0..n - 1]"
proof -
  let ?L = "[0..n - 1]"
  have j: "j \<in> set ?L" and i: "i \<in> set ?L"
    using assms by simp_all
  have "ks_of i j (ijk_order n n n) =
      concat (map (\<lambda>i0. concat (map (\<lambda>j0. if j0 = j \<and> i0 = i then ?L else []) ?L)) ?L)"
    unfolding ijk_order_def ks_of_concat map_map comp_def ks_of_column loop_values_unit
    by (rule refl)
  also have "\<dots> = concat (map (\<lambda>i0. if j \<in> set ?L \<and> i0 = i then ?L else []) ?L)"
    by (subst concat_select) simp_all
  also have "\<dots> = concat (map (\<lambda>i0. if i0 = i then ?L else []) ?L)"
    using j by simp
  also have "\<dots> = ?L"
    using i by (subst concat_pick) simp_all
  finally show ?thesis .
qed

lemma in_range_ijk_order: "list_all (in_range n) (ijk_order n n n)"
  by (auto simp: list_all_iff ijk_order_def in_range_def dest: loop_values_bounds)

lemma shape_refl: "shape m m"
  by (simp add: shape_def)

lemma shape_trans: "shape a b \<Longrightarrow> shape b c \<Longrightarrow> shape a c"
  by (simp add: shape_def)

lemma shape_poke: "shape m (poke m r j v)"
  by (simp add: shape_def poke_simps poke_row_length)

lemma shape_row_table: "shape m m' \<Longrightarrow> row_table m' M = row_table m M"
  by (rule row_table_tables) (simp add: shape_def)

lemma shape_valid_row: "shape m m' \<Longrightarrow> valid_row m' n p = valid_row m n p"
  by (simp add: shape_def valid_row_def split: ptr.splits)

lemma shape_square: "shape m m' \<Longrightarrow> square_matrix m' M n = square_matrix m M n"
proof -
  assume s: "shape m m'"
  then have "valid_row m' n = valid_row m n"
    by (intro ext shape_valid_row)
  moreover have "tables m' = tables m"
    using s by (simp add: shape_def)
  ultimately show ?thesis
    by (simp add: square_matrix_def split: ptr.splits)
qed

lemma shape_operands:
  assumes "shape m m'"
  shows "operands m' A B C n = operands m A B C n"
  by (simp add: operands_def separate_def shape_square[OF assms] shape_row_table[OF assms])

lemma result_of_shape: "result_of m A B C n ts m' \<Longrightarrow> shape m m'"
  by (simp add: result_of_def shape_def)

lemma elem_unchanged:
  assumes "square_matrix m M n" "0 \<le> i" "i < n" "shape m m'"
    and "\<And>r. Ptr r \<in> set (row_table m M) \<Longrightarrow> rows m' ! r = rows m ! r"
  shows "elem m' M i j = elem m M i j"
  using assms(5)[OF row_ptr_facts(4)[OF assms(1,2,3)]] shape_row_table[OF assms(4)]
  by (simp add: elem_def)

lemma assign_effect:
  assumes sq: "square_matrix m M n" and d: "distinct (row_table m M)"
    and i: "0 \<le> i" "i < n" and j: "0 \<le> j" "j < n"
  shows "\<exists>m'. write2 m M i j v = Inr m' \<and> shape m m' \<and>
           (\<forall>r. Ptr r \<notin> set (row_table m M) \<longrightarrow> rows m' ! r = rows m ! r) \<and>
           (\<forall>i' j'. 0 \<le> i' \<and> i' < n \<and> 0 \<le> j' \<and> j' < n \<longrightarrow>
              elem m' M i' j' = (if i' = i \<and> j' = j then v else elem m M i' j'))"
proof -
  let ?r = "block_of (row_table m M ! nat i)"
  let ?m' = "poke m ?r j v"
  have w: "write2 m M i j v = Inr ?m'"
    by (rule write2_ok[OF sq i j])
  have rin: "Ptr ?r \<in> set (row_table m M)"
    by (rule row_ptr_facts(4)[OF sq i])
  have fr: "rows ?m' ! r = rows m ! r" if "Ptr r \<notin> set (row_table m M)" for r
    using that rin by (intro poke_simps(4)) auto
  have el: "elem ?m' M i' j' = (if i' = i \<and> j' = j then v else elem m M i' j')"
    if "0 \<le> i' \<and> i' < n \<and> 0 \<le> j' \<and> j' < n" for i' j'
    using that by (intro poke_elem_target[OF sq d i j]) simp_all
  show ?thesis
  proof (intro exI conjI allI impI)
    show "write2 m M i j v = Inr ?m'" by (rule w)
    show "shape m ?m'" by (rule shape_poke)
  qed (use fr el in simp_all)
qed
lemma clear_cell_effect:
  fixes m :: "('a::zero) memory"
  assumes P: "square_matrix m P n" "distinct (row_table m P)"
    and Q: "square_matrix m Q n" "distinct (row_table m Q)"
    and PQ: "set (row_table m P) \<inter> set (row_table m Q) = {}"
    and c: "cell_in n c"
  shows "\<exists>m'. clear_cell P Q c m = Some (Inr m') \<and> shape m m' \<and>
           (\<forall>r. Ptr r \<notin> set (row_table m P) \<union> set (row_table m Q) \<longrightarrow>
              rows m' ! r = rows m ! r) \<and>
           both_zero m' P Q c \<and>
           (\<forall>c'. cell_in n c' \<and> both_zero m P Q c' \<longrightarrow> both_zero m' P Q c')"
proof -
  obtain i j where ij: "c = (i, j)" by (cases c)
  have r: "0 \<le> i" "i < n" "0 \<le> j" "j < n"
    using c by (simp_all add: ij cell_in_def)
  obtain ma where ma: "write2 m P i j 0 = Inr ma" "shape m ma"
    "\<And>r. Ptr r \<notin> set (row_table m P) \<Longrightarrow> rows ma ! r = rows m ! r"
    "\<And>i' j'. 0 \<le> i' \<and> i' < n \<and> 0 \<le> j' \<and> j' < n \<Longrightarrow>
       elem ma P i' j' = (if i' = i \<and> j' = j then 0 else elem m P i' j')"
    using assign_effect[OF P r, of 0] by blast
  have tq: "row_table ma Q = row_table m Q" and tp: "row_table ma P = row_table m P"
    by (rule shape_row_table[OF ma(2)])+
  have Qa: "square_matrix ma Q n" "distinct (row_table ma Q)"
    using Q by (simp_all add: shape_square[OF ma(2)] tq)
  obtain mb where mb: "write2 ma Q i j 0 = Inr mb" "shape ma mb"
    "\<And>r. Ptr r \<notin> set (row_table ma Q) \<Longrightarrow> rows mb ! r = rows ma ! r"
    "\<And>i' j'. 0 \<le> i' \<and> i' < n \<and> 0 \<le> j' \<and> j' < n \<Longrightarrow>
       elem mb Q i' j' = (if i' = i \<and> j' = j then 0 else elem ma Q i' j')"
    using assign_effect[OF Qa r, of 0] by blast
  have Pa: "square_matrix ma P n"
    using P(1) by (simp add: shape_square[OF ma(2)])
  have eP: "elem mb P i' j' = elem ma P i' j'" if "0 \<le> i'" "i' < n" for i' j'
  proof (rule elem_unchanged[OF Pa that mb(2)])
    fix r assume "Ptr r \<in> set (row_table ma P)"
    then have "Ptr r \<notin> set (row_table ma Q)" using PQ tp tq by auto
    then show "rows mb ! r = rows ma ! r" by (rule mb(3))
  qed
  have eQ: "elem ma Q i' j' = elem m Q i' j'" if "0 \<le> i'" "i' < n" for i' j'
  proof (rule elem_unchanged[OF Q(1) that ma(2)])
    fix r assume "Ptr r \<in> set (row_table m Q)"
    then have "Ptr r \<notin> set (row_table m P)" using PQ by auto
    then show "rows ma ! r = rows m ! r" by (rule ma(3))
  qed
  have run: "clear_cell P Q c m = Some (Inr mb)"
    by (simp add: clear_cell_def ij ma(1) mb(1))
  have sh: "shape m mb"
    by (rule shape_trans[OF ma(2) mb(2)])
  have fr: "rows mb ! r = rows m ! r"
    if "Ptr r \<notin> set (row_table m P) \<union> set (row_table m Q)" for r
    using that ma(3)[of r] mb(3)[of r] tq by simp
  have z: "both_zero mb P Q c"
    using r by (simp add: both_zero_def ij eP ma(4) mb(4))
  have keep: "both_zero mb P Q c'" if "cell_in n c' \<and> both_zero m P Q c'" for c'
  proof -
    obtain i' j' where c': "c' = (i', j')" by (cases c')
    have r': "0 \<le> i'" "i' < n" "0 \<le> j'" "j' < n"
      and z': "elem m P i' j' = 0" "elem m Q i' j' = 0"
      using that by (simp_all add: c' cell_in_def both_zero_def)
    show ?thesis
      using r' z' by (simp add: both_zero_def c' eP ma(4) mb(4) eQ)
  qed
  show ?thesis
    using run sh fr z keep by blast
qed

lemma clear_cells_effect:
  fixes m :: "('a::zero) memory"
  assumes "square_matrix m P n" "distinct (row_table m P)"
    and "square_matrix m Q n" "distinct (row_table m Q)"
    and "set (row_table m P) \<inter> set (row_table m Q) = {}"
    and "list_all (cell_in n) cs"
  shows "\<exists>m'. run_list (clear_cell P Q) cs m = Some (Inr m') \<and> shape m m' \<and>
           (\<forall>r. Ptr r \<notin> set (row_table m P) \<union> set (row_table m Q) \<longrightarrow>
              rows m' ! r = rows m ! r) \<and>
           (\<forall>c \<in> set cs. both_zero m' P Q c) \<and>
           (\<forall>c'. cell_in n c' \<and> both_zero m P Q c' \<longrightarrow> both_zero m' P Q c')"
  using assms
proof (induction cs arbitrary: m)
  case Nil
  then show ?case by (simp add: shape_refl)
next
  case (Cons c cs)
  have c: "cell_in n c" and cs: "list_all (cell_in n) cs"
    using Cons.prems(6) by simp_all
  obtain ma where ma: "clear_cell P Q c m = Some (Inr ma)" "shape m ma"
    "\<And>r. Ptr r \<notin> set (row_table m P) \<union> set (row_table m Q) \<Longrightarrow> rows ma ! r = rows m ! r"
    "both_zero ma P Q c"
    "\<And>c'. cell_in n c' \<and> both_zero m P Q c' \<Longrightarrow> both_zero ma P Q c'"
    using clear_cell_effect[OF Cons.prems(1-5) c] by blast
  have t: "row_table ma P = row_table m P" "row_table ma Q = row_table m Q"
    by (rule shape_row_table[OF ma(2)])+
  have pre: "square_matrix ma P n" "distinct (row_table ma P)"
    "square_matrix ma Q n" "distinct (row_table ma Q)"
    "set (row_table ma P) \<inter> set (row_table ma Q) = {}"
    using Cons.prems(1-5) by (simp_all add: shape_square[OF ma(2)] t)
  obtain mb where mb: "run_list (clear_cell P Q) cs ma = Some (Inr mb)" "shape ma mb"
    "\<And>r. Ptr r \<notin> set (row_table ma P) \<union> set (row_table ma Q) \<Longrightarrow> rows mb ! r = rows ma ! r"
    "\<And>c. c \<in> set cs \<Longrightarrow> both_zero mb P Q c"
    "\<And>c'. cell_in n c' \<and> both_zero ma P Q c' \<Longrightarrow> both_zero mb P Q c'"
    using Cons.IH[OF pre cs] by blast
  have "run_list (clear_cell P Q) (c # cs) m = Some (Inr mb)"
    by (simp add: ma(1) mb(1))
  moreover have "shape m mb"
    by (rule shape_trans[OF ma(2) mb(2)])
  moreover have "rows mb ! r = rows m ! r"
    if "Ptr r \<notin> set (row_table m P) \<union> set (row_table m Q)" for r
    using that ma(3)[of r] mb(3)[of r] t by simp
  moreover have "both_zero mb P Q c'" if "c' \<in> set (c # cs)" for c'
    using that mb(4)[of c'] mb(5)[of c] ma(4) c by (cases "c' = c") simp_all
  moreover have "both_zero mb P Q c'" if "cell_in n c' \<and> both_zero m P Q c'" for c'
    using that ma(5)[of c'] mb(5)[of c'] by blast
  ultimately show ?case
    by blast
qed

lemma cells_in: "list_all (cell_in n) (cells n n)"
  by (auto simp: list_all_iff cells_def cell_in_def dest: loop_values_bounds)

lemma cells_mem:
  assumes "0 \<le> i" "i < n" "0 \<le> j" "j < n"
  shows "(i, j) \<in> set (cells n n)"
  using assms by (force simp: cells_def loop_values_unit)

lemma clear_results_unrolled:
  assumes "n \<le> INT_MAX"
  shows "clear_results P Q n n m = run_list (clear_cell P Q) (cells n n) m"
proof -
  have k: "\<And>i js. run_list (\<lambda>j m. case write2 m P i j 0 of Inl f \<Rightarrow> Some (Inl f)
        | Inr m' \<Rightarrow> Some (write2 m' Q i j 0)) js =
      run_list (clear_cell P Q) (map (\<lambda>j. (i, j)) js)"
    by (rule ext) (simp add: run_list_map clear_cell_def)
  show ?thesis
    unfolding clear_results_def cells_def unit_loop_unroll[OF assms] k run_list_concat
    by (rule refl)
qed

lemma result_elem_frame:
  assumes res: "result_of m A B C n ts m'" and sq: "square_matrix m M n"
    and dj: "set (row_table m M) \<inter> set (row_table m C) = {}"
    and i: "0 \<le> i" "i < n"
  shows "elem m' M i j = elem m M i j"
proof (rule elem_unchanged[OF sq i result_of_shape[OF res]])
  fix r assume "Ptr r \<in> set (row_table m M)"
  then have "Ptr r \<notin> set (row_table m C)" using dj by auto
  then show "rows m' ! r = rows m ! r" using res by (simp add: result_of_def)
qed

lemma dot_acc_upto_cong:
  assumes "\<And>k. 0 \<le> k \<Longrightarrow> k < n \<Longrightarrow>
      elem m1 A i k = elem m A i k \<and> elem m1 B k j = elem m B k j"
  shows "dot_acc m1 A B i j c [0..n - 1] = dot_acc m A B i j c [0..n - 1]"
  by (rule dot_acc_cong) (use assms in simp)

lemma mxm_main_loops_dimensions:
  "mxm_main_loops m1 m2 result_ijk result_ikj =
     compare_loop_orders m1 m2 result_ijk result_ikj 512 512 512"
  by (simp add: mxm_main_loops_def R1_def C2_def R2_def)

lemma mem4_operands: "comparison_operands mem4 (Ptr 0) (Ptr 1) (Ptr 2) (Ptr 3) 2"
  by (simp add: comparison_operands_def operands_def mem4_def square_matrix_def valid_row_def
      separate_def row_table_def)

lemma mem4_run:
  "compare_loop_orders (Ptr 0) (Ptr 1) (Ptr 2) (Ptr 3) 2 2 2 mem4 =
     Some (Inr (mem4\<lparr>rows := [[1, 2], [3, 4], [5, 6], [7, 8],
                              [19, 22], [43, 50], [19, 22], [43, 50]]\<rparr>))"
  by code_simp

text \<open>
  Claim C9. In the loop-order comparison, for matrices \<open>m1\<close>, \<open>m2\<close> and two result matrices
  of dimension \<open>n\<close> (the program has \<open>R1 = C2 = R2 = 512\<close>), separate from the inputs and from
  each other, the three loop nests of \<open>main\<close> (clearing both results, the i-j-k nest, the
  i-k-j nest) return, and afterwards \<open>result_ijk[i][j] = result_ikj[i][j]\<close> for all
  \<open>i\<close>, \<open>j\<close>: both are the accumulation from \<open>0\<close> of \<open>m1[i][k] * m2[k][j]\<close> over \<open>k\<close> in
  ascending order. The equality is exact for any \<open>+\<close> and \<open>*\<close>.
\<close>

theorem loop_orders_agree:
  fixes m :: "('a::{plus,times,zero}) memory"
  assumes ops: "comparison_operands m m1 m2 result_ijk result_ikj n" and n: "n \<le> INT_MAX"
  shows "\<exists>m'. compare_loop_orders m1 m2 result_ijk result_ikj n n n m = Some (Inr m') \<and>
           (\<forall>i j. 0 \<le> i \<and> i < n \<and> 0 \<le> j \<and> j < n \<longrightarrow>
              elem m' result_ijk i j = elem m' result_ikj i j \<and>
              elem m' result_ikj i j =
                foldl (\<lambda>acc k. acc + elem m m1 i k * elem m m2 k j) 0 [0..n - 1])"
proof -
  let ?P = result_ijk and ?Q = result_ikj
  have oP: "operands m m1 m2 ?P n" and oQ: "operands m m1 m2 ?Q n"
    and PQ: "set (row_table m ?P) \<inter> set (row_table m ?Q) = {}"
    using ops by (simp_all add: comparison_operands_def)
  have sq: "square_matrix m m1 n" "square_matrix m m2 n" "square_matrix m ?P n"
    "square_matrix m ?Q n"
    and dP: "distinct (row_table m ?P)" and dQ: "distinct (row_table m ?Q)"
    and d1: "set (row_table m m1) \<inter> (set (row_table m ?P) \<union> set (row_table m ?Q)) = {}"
    and d2: "set (row_table m m2) \<inter> (set (row_table m ?P) \<union> set (row_table m ?Q)) = {}"
    using oP oQ by (auto simp: operands_def separate_def)
  \<comment> \<open>clearing\<close>
  obtain ma where ma: "clear_results ?P ?Q n n m = Some (Inr ma)" "shape m ma"
    "\<And>r. Ptr r \<notin> set (row_table m ?P) \<union> set (row_table m ?Q) \<Longrightarrow> rows ma ! r = rows m ! r"
    "\<And>c. c \<in> set (cells n n) \<Longrightarrow> both_zero ma ?P ?Q c"
    unfolding clear_results_unrolled[OF n]
    using clear_cells_effect[OF sq(3) dP sq(4) dQ PQ cells_in] by blast
  have zero: "elem ma ?P i j = 0" "elem ma ?Q i j = 0"
    if "0 \<le> i" "i < n" "0 \<le> j" "j < n" for i j
    using ma(4)[OF cells_mem[OF that]] by (simp_all add: both_zero_def)
  have in1: "elem ma m1 i k = elem m m1 i k" if "0 \<le> i" "i < n" for i k
  proof (rule elem_unchanged[OF sq(1) that ma(2)])
    fix r assume "Ptr r \<in> set (row_table m m1)"
    then show "rows ma ! r = rows m ! r" using d1 by (intro ma(3)) auto
  qed
  have in2: "elem ma m2 k j = elem m m2 k j" if "0 \<le> k" "k < n" for k j
  proof (rule elem_unchanged[OF sq(2) that ma(2)])
    fix r assume "Ptr r \<in> set (row_table m m2)"
    then show "rows ma ! r = rows m ! r" using d2 by (intro ma(3)) auto
  qed
  have ta: "\<And>M. row_table ma M = row_table m M"
    by (rule shape_row_table[OF ma(2)])
  have oPa: "operands ma m1 m2 ?P n" and oQa: "operands ma m1 m2 ?Q n"
    using oP oQ by (simp_all add: shape_operands[OF ma(2)])
  have sqa: "square_matrix ma m1 n" "square_matrix ma m2 n" "square_matrix ma ?P n"
    "square_matrix ma ?Q n"
    using sq by (simp_all add: shape_square[OF ma(2)])
  \<comment> \<open>the i-j-k nest\<close>
  obtain mb where mb: "ijk_nest m1 m2 ?P n n n ma = Some (Inr mb)"
    "result_of ma m1 m2 ?P n (ijk_order n n n) mb"
    unfolding ijk_unrolled[OF n n n]
    using run_macs_result[OF oPa in_range_ijk_order] by blast
  have shb: "shape ma mb" by (rule result_of_shape[OF mb(2)])
  have oQb: "operands mb m1 m2 ?Q n"
    using oQa by (simp add: shape_operands[OF shb])
  have b1: "elem mb m1 i k = elem ma m1 i k" if "0 \<le> i" "i < n" for i k
    using d1 by (intro result_elem_frame[OF mb(2) sqa(1) _ that]) (auto simp: ta)
  have b2: "elem mb m2 k j = elem ma m2 k j" if "0 \<le> k" "k < n" for k j
    using d2 by (intro result_elem_frame[OF mb(2) sqa(2) _ that]) (auto simp: ta)
  have bQ: "elem mb ?Q i j = elem ma ?Q i j" if "0 \<le> i" "i < n" for i j
    using PQ by (intro result_elem_frame[OF mb(2) sqa(4) _ that]) (auto simp: ta)
  have bP: "elem mb ?P i j = dot_acc ma m1 m2 i j 0 [0..n - 1]"
    if "0 \<le> i" "i < n" "0 \<le> j" "j < n" for i j
    using mb(2) that by (simp add: result_of_def ks_of_ijk_order zero)
  \<comment> \<open>the i-k-j nest\<close>
  obtain mc where mc: "ikj_nest m1 m2 ?Q n n n mb = Some (Inr mc)"
    "result_of mb m1 m2 ?Q n (standard_order n) mc"
    unfolding ikj_is_standard
    using standard_result[OF oQb n] by blast
  have sqb: "square_matrix mb ?P n"
    using sqa(3) by (simp add: shape_square[OF shb])
  have tb: "\<And>M. row_table mb M = row_table ma M"
    by (rule shape_row_table[OF shb])
  have cP: "elem mc ?P i j = elem mb ?P i j" if "0 \<le> i" "i < n" for i j
    using PQ by (intro result_elem_frame[OF mc(2) sqb _ that]) (auto simp: ta tb)
  have cQ: "elem mc ?Q i j = dot_acc mb m1 m2 i j 0 [0..n - 1]"
    if "0 \<le> i" "i < n" "0 \<le> j" "j < n" for i j
    using mc(2) that by (simp add: result_of_def ks_of_standard_order zero bQ)
  have run: "compare_loop_orders m1 m2 ?P ?Q n n n m = Some (Inr mc)"
    by (simp add: compare_loop_orders_def and_then_def ma(1) mb(1) mc(1))
  have fin: "elem mc ?P i j = elem mc ?Q i j \<and>
      elem mc ?Q i j = foldl (\<lambda>acc k. acc + elem m m1 i k * elem m m2 k j) 0 [0..n - 1]"
    if r: "0 \<le> i \<and> i < n \<and> 0 \<le> j \<and> j < n" for i j
  proof -
    have "dot_acc mb m1 m2 i j 0 [0..n - 1] = dot_acc ma m1 m2 i j 0 [0..n - 1]"
      using r by (intro dot_acc_upto_cong) (simp add: b1 b2)
    moreover have "dot_acc ma m1 m2 i j 0 [0..n - 1] = dot_acc m m1 m2 i j 0 [0..n - 1]"
      using r by (intro dot_acc_upto_cong) (simp add: in1 in2)
    ultimately show ?thesis
      using r by (simp add: cP cQ bP dot_acc_def)
  qed
  show ?thesis
    using run fin by blast
qed

theorem loop_orders_agree_witness:
  "comparison_operands mem4 (Ptr 0) (Ptr 1) (Ptr 2) (Ptr 3) 2 \<and> (2::int) \<le> INT_MAX \<and>
   (\<exists>m'. compare_loop_orders (Ptr 0) (Ptr 1) (Ptr 2) (Ptr 3) 2 2 2 mem4 = Some (Inr m') \<and>
      (\<forall>i j. 0 \<le> i \<and> i < 2 \<and> 0 \<le> j \<and> j < 2 \<longrightarrow>
         elem m' (Ptr 2) i j = elem m' (Ptr 3) i j \<and>
         elem m' (Ptr 3) i j =
           foldl (\<lambda>acc k. acc + elem mem4 (Ptr 0) i k * elem mem4 (Ptr 1) k j) 0 [0..2 - 1]))"
proof -
  have n: "(2::int) \<le> INT_MAX"
    by (simp add: INT_MAX_def)
  from loop_orders_agree[OF mem4_operands n] mem4_operands n
  show ?thesis
    by blast
qed

section \<open>The stride experiment\<close>

lemma stride_values: "0 < s \<Longrightarrow> loop_values (s * a) (s * n) s = map (\<lambda>t. s * t) [a..n - 1]"
proof (induction "nat (n - a)" arbitrary: a)
  case 0
  then have "\<not> s * a < s * n" by (simp add: mult_less_cancel_left_pos)
  with 0 show ?case by (simp add: loop_values_done)
next
  case (Suc d)
  then have lt: "a < n" by simp
  then have "s * a < s * n" using Suc.prems by simp
  then have "loop_values (s * a) (s * n) s = s * a # loop_values (s * (a + 1)) (s * n) s"
    using Suc.prems by (simp add: loop_values_step algebra_simps)
  moreover have "loop_values (s * (a + 1)) (s * n) s = map (\<lambda>t. s * t) [a + 1..n - 1]"
    using Suc by (intro Suc.hyps(1)) simp_all
  ultimately show ?case
    using lt by (simp add: upto_rec1[of a "n - 1"])
qed

lemma store_elem_ok:
  "r < length (rows m) \<Longrightarrow> 0 \<le> i \<Longrightarrow> i < int (length (rows m ! r)) \<Longrightarrow>
   store_elem m (Ptr r) i v = Inr (poke m r i v)"
  by (simp add: store_elem_def poke_def)

lemma fill_run:
  fixes m :: "real memory"
  assumes "r < length (rows m)" "\<And>x. x \<in> set xs \<Longrightarrow> 0 \<le> x \<and> x < int (length (rows m ! r))"
  shows "\<exists>m'. run_list (\<lambda>i m. Some (store_elem m (Ptr r) i 1)) xs m = Some (Inr m') \<and>
           tables m' = tables m \<and> length (rows m') = length (rows m) \<and>
           (\<forall>r'. r' \<noteq> r \<longrightarrow> rows m' ! r' = rows m ! r') \<and>
           length (rows m' ! r) = length (rows m ! r) \<and>
           (\<forall>j. j < length (rows m ! r) \<longrightarrow>
              rows m' ! r ! j = (if int j \<in> set xs then 1 else rows m ! r ! j))"
  using assms
proof (induction xs arbitrary: m)
  case Nil
  then show ?case by simp
next
  case (Cons x xs)
  let ?m1 = "poke m r x 1"
  have x: "0 \<le> x" "x < int (length (rows m ! r))"
    using Cons.prems(2)[of x] by simp_all
  have st: "store_elem m (Ptr r) x 1 = Inr ?m1"
    by (rule store_elem_ok[OF Cons.prems(1) x])
  have l1: "length (rows ?m1) = length (rows m)" "length (rows ?m1 ! r) = length (rows m ! r)"
    by (simp_all add: poke_simps poke_row_length)
  have pre: "r < length (rows ?m1)"
    "\<And>y. y \<in> set xs \<Longrightarrow> 0 \<le> y \<and> y < int (length (rows ?m1 ! r))"
    using Cons.prems by (simp_all add: l1)
  obtain m' where m': "run_list (\<lambda>i m. Some (store_elem m (Ptr r) i 1)) xs ?m1 = Some (Inr m')"
    "tables m' = tables ?m1" "length (rows m') = length (rows ?m1)"
    "\<And>r'. r' \<noteq> r \<Longrightarrow> rows m' ! r' = rows ?m1 ! r'"
    "length (rows m' ! r) = length (rows ?m1 ! r)"
    "\<And>j. j < length (rows ?m1 ! r) \<Longrightarrow>
       rows m' ! r ! j = (if int j \<in> set xs then 1 else rows ?m1 ! r ! j)"
    using Cons.IH[OF pre] by blast
  have cell: "rows ?m1 ! r ! j = (if int j = x then 1 else rows m ! r ! j)"
    if "j < length (rows m ! r)" for j
    using that Cons.prems(1) x by (auto simp: poke_def nth_list_update)
  show ?case
  proof (intro exI conjI allI impI)
    show "run_list (\<lambda>i m. Some (store_elem m (Ptr r) i 1)) (x # xs) m = Some (Inr m')"
      by (simp add: st m'(1))
    show "tables m' = tables m" by (simp add: m'(2) poke_simps)
    show "length (rows m') = length (rows m)" by (simp add: m'(3) l1)
    show "length (rows m' ! r) = length (rows m ! r)" by (simp add: m'(5) l1)
    show "rows m' ! r' = rows m ! r'" if "r' \<noteq> r" for r'
      using that by (simp add: m'(4) poke_simps)
    show "rows m' ! r ! j = (if int j \<in> set (x # xs) then 1 else rows m ! r ! j)"
      if "j < length (rows m ! r)" for j
      using that by (simp add: m'(6) l1 cell)
  qed
qed

lemma mul_int_ok:
  assumes "0 \<le> a" "0 \<le> b" "a * b \<le> INT_MAX"
  shows "mul_int a b = Inr (a * b)"
proof -
  have "0 \<le> a * b" using assms(1,2) by simp
  then show ?thesis using assms(3) by (simp add: mul_int_def INT_MIN_def)
qed

lemma init_buffer_ok:
  fixes m :: "real memory"
  assumes buf: "buffer_at m a (n * k)" and n: "0 \<le> n" "0 \<le> k" "n * k < INT_MAX"
  shows "\<exists>m' r. a = Ptr r \<and> init_buffer a n k m = Some (Inr m') \<and>
           tables m' = tables m \<and> length (rows m') = length (rows m) \<and>
           (\<forall>r'. r' \<noteq> r \<longrightarrow> rows m' ! r' = rows m ! r') \<and>
           rows m' ! r = replicate (nat (n * k)) 1"
proof -
  obtain r where r: "a = Ptr r" "r < length (rows m)" "int (length (rows m ! r)) = n * k"
    using buf by (auto simp: buffer_at_def split: ptr.splits)
  have u: "for_loop 0 (n * k) 1 (\<lambda>i m. Some (store_elem m (Ptr r) i 1)) m =
      run_list (\<lambda>i m. Some (store_elem m (Ptr r) i 1)) [0..n * k - 1] m"
    using n(3) by (simp add: unit_loop_unroll loop_values_unit)
  have "\<And>x. x \<in> set [0..n * k - 1] \<Longrightarrow> 0 \<le> x \<and> x < int (length (rows m ! r))"
    by (simp add: r(3))
  from fill_run[OF r(2) this] obtain m' where
    m': "run_list (\<lambda>i m. Some (store_elem m (Ptr r) i 1)) [0..n * k - 1] m = Some (Inr m')"
    "tables m' = tables m" "length (rows m') = length (rows m)"
    "\<And>r'. r' \<noteq> r \<Longrightarrow> rows m' ! r' = rows m ! r'"
    "length (rows m' ! r) = length (rows m ! r)"
    "\<And>j. j < length (rows m ! r) \<Longrightarrow>
       rows m' ! r ! j = (if int j \<in> set [0..n * k - 1] then 1 else rows m ! r ! j)"
    by blast
  have len: "length (rows m' ! r) = nat (n * k)"
    using m'(5) r(3) by simp
  have "rows m' ! r = replicate (nat (n * k)) 1"
  proof (rule nth_equalityI)
    show "length (rows m' ! r) = length (replicate (nat (n * k)) (1::real))"
      by (simp add: len)
  next
    fix j assume "j < length (rows m' ! r)"
    then have j: "j < nat (n * k)" by (simp add: len)
    then have "j < length (rows m ! r)" using r(3) by simp
    moreover have "int j < n * k" using j by linarith
    ultimately show "rows m' ! r ! j = replicate (nat (n * k)) 1 ! j"
      using m'(6)[of j] j by simp
  qed
  moreover have "init_buffer a n k m = Some (Inr m')"
    using n by (simp add: init_buffer_def r(1) mul_int_ok for_loop_to_def u m'(1))
  ultimately show ?thesis
    using r(1) m'(2,3,4) by blast
qed

lemma scan_run:
  assumes "r < length (rows m)" "rows m ! r = replicate len 1"
    and "\<forall>x \<in> set xs. 0 \<le> x \<and> x < int len"
  shows "run_list (scan_step m (Ptr r)) xs st =
         Some (Inr \<lparr>sum_v = sum_v st + real (length xs), reads = reads st @ xs\<rparr>)"
  using assms(3)
proof (induction xs arbitrary: st)
  case Nil
  then show ?case by simp
next
  case (Cons x xs)
  have x: "0 \<le> x" "x < int len" using Cons.prems by simp_all
  then have "load_elem m (Ptr r) x = Inr 1"
    using assms(1,2) by (simp add: load_elem_def)
  then have "scan_step m (Ptr r) x st = Some (Inr \<lparr>sum_v = sum_v st + 1, reads = reads st @ [x]\<rparr>)"
    by (simp add: scan_step_def)
  moreover have "run_list (scan_step m (Ptr r)) xs \<lparr>sum_v = sum_v st + 1, reads = reads st @ [x]\<rparr> =
      Some (Inr \<lparr>sum_v = (sum_v st + 1) + real (length xs), reads = (reads st @ [x]) @ xs\<rparr>)"
    using Cons.IH[of "\<lparr>sum_v = sum_v st + 1, reads = reads st @ [x]\<rparr>"] Cons.prems by simp
  ultimately show ?case
    by (simp add: add.assoc add.commute)
qed

lemma stride_index_bound:
  fixes s k t n :: int
  assumes "1 \<le> s" "s \<le> k" "0 \<le> t" "t \<le> n - 1"
  shows "0 \<le> s * t \<and> s * t < n * k"
proof -
  have "s * t \<le> k * t" by (rule mult_right_mono[OF assms(2,3)])
  also have "\<dots> \<le> k * (n - 1)" using assms(1,2,4) by (intro mult_left_mono) simp_all
  also have "\<dots> < k * n" using assms(1,2) by simp
  finally show ?thesis using assms(1,3) by (simp add: mult.commute)
qed

lemma strided_scan_ok:
  assumes r: "r < length (rows m)" "rows m ! r = replicate (nat (n * k)) 1"
    and s: "1 \<le> s" "s \<le> k" and n: "0 \<le> n" "n * k + k \<le> INT_MAX"
  shows "strided_scan (Ptr r) n s m =
         Some (Inr \<lparr>sum_v = real_of_int n, reads = map (\<lambda>t. s * t) [0..n - 1]\<rparr>)"
proof -
  have nk: "0 \<le> n * k" using n(1) s by simp
  have le: "n * s \<le> n * k" using s(2) n(1) by (simp add: mult_left_mono)
  have m: "mul_int n s = Inr (n * s)"
    using n s le by (intro mul_int_ok) simp_all
  have vals: "loop_values 0 (n * s) s = map (\<lambda>t. s * t) [0..n - 1]"
    using stride_values[of s 0 n] s(1) by (simp add: mult.commute)
  have u: "for_loop 0 (n * s) s (scan_step m (Ptr r)) \<lparr>sum_v = 0, reads = []\<rparr> =
      run_list (scan_step m (Ptr r)) (map (\<lambda>t. s * t) [0..n - 1]) \<lparr>sum_v = 0, reads = []\<rparr>"
    unfolding vals[symmetric]
  proof (rule for_loop_unroll)
    fix x assume "x \<in> set (loop_values 0 (n * s) s)"
    then have "x < n * s" using loop_values_bounds by blast
    then show "x + s \<le> INT_MAX" using le s(2) n(2) by simp
  qed (use s(1) in \<open>simp_all add: INT_MIN_def\<close>)
  have rng: "\<forall>x \<in> set (map (\<lambda>t. s * t) [0..n - 1]). 0 \<le> x \<and> x < int (nat (n * k))"
    using stride_index_bound[OF s] nk by auto
  have len: "real (length (map (\<lambda>t. s * t) [0..n - 1])) = real_of_int n"
    using n(1) by simp
  have "run_list (scan_step m (Ptr r)) (map (\<lambda>t. s * t) [0..n - 1]) \<lparr>sum_v = 0, reads = []\<rparr> =
      Some (Inr \<lparr>sum_v = real_of_int n, reads = map (\<lambda>t. s * t) [0..n - 1]\<rparr>)"
    using n(1) by (simp add: scan_run[OF r rng])
  then show ?thesis
    by (simp add: strided_scan_def m for_loop_to_def scan_step_def[symmetric] u)
qed

lemma collect_lines:
  assumes "\<And>x l. x \<in> set xs \<Longrightarrow> body x l = Some (Inr (l @ [g x]))"
  shows "run_list body xs l = Some (Inr (l @ map g xs))"
  using assms by (induction xs arbitrary: l) simp_all

lemma stride_constants:
  "0 \<le> N_stride" "0 \<le> MAX_STRIDE" "N_stride * MAX_STRIDE < INT_MAX"
  "N_stride * MAX_STRIDE + MAX_STRIDE \<le> INT_MAX" "real_of_int N_stride = 1000000"
  "nat N_stride = 1000000"
  by (simp_all add: N_stride_def MAX_STRIDE_def INT_MAX_def)

lemma small_buffer_scan:
  "and_then (init_buffer (Ptr 0) 3 2 small_buffer) (strided_scan (Ptr 0) 3 2) =
     Some (Inr \<lparr>sum_v = 3, reads = [0, 2, 4]\<rparr>)"
  by code_simp

text \<open>
  Claim C10. In the stride experiment, with the buffer \<open>a\<close> allocated with
  \<open>N * MAX_STRIDE\<close> doubles (whatever it holds), the initialisation returns, and then for
  every stride \<open>s\<close> from \<open>1\<close> to \<open>MAX_STRIDE = 20\<close> the scan returns with \<open>sum = 1000000\<close>
  after reading exactly the indices \<open>s * t\<close> for \<open>t = 0, \<dots>, N - 1\<close>: \<open>N = 1000000\<close> reads, each
  inside the buffer. The program prints the sum \<open>1000000\<close> for each of the 20 strides.
\<close>

theorem strided_scans_sum_to_N:
  assumes "buffer_at m a (N_stride * MAX_STRIDE)"
  shows "\<exists>m'. init_buffer a N_stride MAX_STRIDE m = Some (Inr m') \<and>
           (\<forall>s. 1 \<le> s \<and> s \<le> MAX_STRIDE \<longrightarrow>
              strided_scan a N_stride s m' =
                Some (Inr \<lparr>sum_v = 1000000, reads = map (\<lambda>t. s * t) [0..N_stride - 1]\<rparr>) \<and>
              length (map (\<lambda>t. s * t) [0..N_stride - 1]) = 1000000 \<and>
              (\<forall>i \<in> set (map (\<lambda>t. s * t) [0..N_stride - 1]).
                 0 \<le> i \<and> i < N_stride * MAX_STRIDE)) \<and>
           stride_experiment a m = Some (Inr (map (\<lambda>s. (s, 1000000)) [1..MAX_STRIDE]))"
proof -
  obtain m' r where r: "a = Ptr r" and init: "init_buffer a N_stride MAX_STRIDE m = Some (Inr m')"
    and len: "length (rows m') = length (rows m)"
    and ones: "rows m' ! r = replicate (nat (N_stride * MAX_STRIDE)) 1"
    using init_buffer_ok[OF assms stride_constants(1,2,3)] by blast
  have rl: "r < length (rows m')"
    using assms by (simp add: buffer_at_def r len)
  have scan: "strided_scan a N_stride s m' =
      Some (Inr \<lparr>sum_v = 1000000, reads = map (\<lambda>t. s * t) [0..N_stride - 1]\<rparr>)"
    if "1 \<le> s \<and> s \<le> MAX_STRIDE" for s
    using that strided_scan_ok[OF rl ones _ _ stride_constants(1,4), of s]
    by (simp add: r stride_constants(5))
  have cnt: "length (map (\<lambda>t. s * t) [0..N_stride - 1]) = 1000000" for s :: int
    by (simp add: stride_constants(6))
  have bnd: "\<forall>i \<in> set (map (\<lambda>t. s * t) [0..N_stride - 1]). 0 \<le> i \<and> i < N_stride * MAX_STRIDE"
    if "1 \<le> s \<and> s \<le> MAX_STRIDE" for s
    using that stride_index_bound[of s MAX_STRIDE _ N_stride] by auto
  let ?body = "\<lambda>i_stride lines. case strided_scan a N_stride i_stride m' of
        None \<Rightarrow> None
      | Some (Inl f) \<Rightarrow> Some (Inl f)
      | Some (Inr st) \<Rightarrow> Some (Inr (lines @ [(i_stride, sum_v st)]))"
  have u: "for_loop 1 (MAX_STRIDE + 1) 1 ?body [] =
      run_list ?body (loop_values 1 (MAX_STRIDE + 1) 1) []"
  proof (rule for_loop_unroll)
    fix x assume "x \<in> set (loop_values 1 (MAX_STRIDE + 1) 1)"
    then have "x < MAX_STRIDE + 1" using loop_values_bounds by blast
    then show "x + 1 \<le> INT_MAX" by (simp add: MAX_STRIDE_def INT_MAX_def)
  qed (simp_all add: INT_MIN_def)
  have "run_list ?body [1..MAX_STRIDE] [] = Some (Inr ([] @ map (\<lambda>s. (s, 1000000)) [1..MAX_STRIDE]))"
    by (rule collect_lines) (simp add: scan)
  then have "stride_experiment a m = Some (Inr (map (\<lambda>s. (s, 1000000)) [1..MAX_STRIDE]))"
    by (simp add: stride_experiment_def and_then_def init u loop_values_unit)
  then show ?thesis
    using init scan cnt bnd by blast
qed

lemma big_buffer_allocated: "buffer_at big_buffer (Ptr 0) (N_stride * MAX_STRIDE)"
  using stride_constants(1,2) by (simp add: buffer_at_def big_buffer_def)

theorem strided_scans_sum_to_N_witness:
  "buffer_at big_buffer (Ptr 0) (N_stride * MAX_STRIDE) \<and>
   (\<exists>m'. init_buffer (Ptr 0) N_stride MAX_STRIDE big_buffer = Some (Inr m') \<and>
      strided_scan (Ptr 0) N_stride 7 m' =
        Some (Inr \<lparr>sum_v = 1000000, reads = map (\<lambda>t. 7 * t) [0..N_stride - 1]\<rparr>)) \<and>
   stride_experiment (Ptr 0) big_buffer = Some (Inr (map (\<lambda>s. (s, 1000000)) [1..MAX_STRIDE]))"
proof -
  have s: "(1::int) \<le> 7 \<and> 7 \<le> MAX_STRIDE"
    by (simp add: MAX_STRIDE_def)
  from strided_scans_sum_to_N[OF big_buffer_allocated] s big_buffer_allocated
  show ?thesis
    by blast
qed

section \<open>Loop invariants\<close>

lemma run_upto_invariant:
  assumes "Inv lo s" and "lo \<le> hi + 1"
    and "\<forall>i t. lo \<le> i \<and> i \<le> hi \<and> Inv i t \<longrightarrow> (\<exists>t'. body i t = Some (Inr t') \<and> Inv (i + 1) t')"
  shows "\<exists>s'. run_list body [lo..hi] s = Some (Inr s') \<and> Inv (hi + 1) s'"
  using assms
proof (induction "nat (hi + 1 - lo)" arbitrary: lo s)
  case 0
  then have "lo = hi + 1" by simp
  with 0 show ?case by simp
next
  case (Suc d)
  then have lt: "lo \<le> hi" by simp
  then obtain s1 where s1: "body lo s = Some (Inr s1)" "Inv (lo + 1) s1"
    using Suc.prems(1,3) by blast
  have "\<exists>s'. run_list body [lo + 1..hi] s1 = Some (Inr s') \<and> Inv (hi + 1) s'"
  proof (rule Suc.hyps(1))
    show "d = nat (hi + 1 - (lo + 1))" using Suc.hyps(2) by simp
    show "Inv (lo + 1) s1" by (rule s1(2))
    show "lo + 1 \<le> hi + 1" using lt by simp
    show "\<forall>i t. lo + 1 \<le> i \<and> i \<le> hi \<and> Inv i t \<longrightarrow>
        (\<exists>t'. body i t = Some (Inr t') \<and> Inv (i + 1) t')"
      using Suc.prems(3) by simp
  qed
  then show ?case
    using lt s1(1) by (simp add: upto_rec1[of lo hi])
qed

lemma unit_loop_invariant:
  assumes "0 \<le> n" "n \<le> INT_MAX" "Inv 0 s"
    and "\<forall>i t. 0 \<le> i \<and> i < n \<and> Inv i t \<longrightarrow> (\<exists>t'. body i t = Some (Inr t') \<and> Inv (i + 1) t')"
  shows "\<exists>s'. for_loop 0 n 1 body s = Some (Inr s') \<and> Inv n s'"
proof -
  have "\<exists>s'. run_list body [0..n - 1] s = Some (Inr s') \<and> Inv (n - 1 + 1) s'"
    using assms(1,3,4) by (intro run_upto_invariant) simp_all
  then show ?thesis
    by (simp add: unit_loop_unroll[OF assms(2)] loop_values_unit)
qed

section \<open>The driver: allocation\<close>

lemma alloc_row_into_ok:
  assumes "malloc_ok w (mallocs s)" "c < length (tables (heap s))"
    "0 \<le> i" "i < int (length (tables (heap s) ! c))"
  shows "alloc_row_into w n (Ptr c) i s =
     Some (Inr (s\<lparr>heap := \<lparr>tables = (tables (heap s))[c := (tables (heap s) ! c)[nat i := Ptr (length (rows (heap s)))]],
                             rows = rows (heap s) @ [map (junk w (mallocs s)) [0..<nat n]]\<rparr>,
                   mallocs := Suc (mallocs s)\<rparr>))"
  using assms by (simp add: alloc_row_into_def malloc_row_def on_heap_def store_ptr_def)

lemma alloc_row_step:
  assumes inv: "rows_allocated s0 n q s" and q: "q = 3 * nat i + c" and c: "c < 3"
    and i: "0 \<le> i" "i < n" and ok: "malloc_ok w (3 + q)"
  shows "\<exists>s'. alloc_row_into w n (Ptr c) i s = Some (Inr s') \<and> rows_allocated s0 n (Suc q) s'"
proof -
  let ?T = "tables (heap s)"
  let ?s' = "s\<lparr>heap := \<lparr>tables = ?T[c := (?T ! c)[nat i := Ptr (length (rows (heap s)))]],
                          rows = rows (heap s) @ [map (junk w (mallocs s)) [0..<nat n]]\<rparr>,
                mallocs := Suc (mallocs s)\<rparr>"
  have f: "length ?T = 3" "\<And>c. c < 3 \<Longrightarrow> length (?T ! c) = nat n"
    "\<And>c t. c < 3 \<Longrightarrow> t < nat n \<Longrightarrow> ?T ! c ! t = (if 3 * t + c < q then Ptr (3 * t + c) else Null)"
    "length (rows (heap s)) = q" "\<And>r. r < q \<Longrightarrow> length (rows (heap s) ! r) = nat n"
    "mallocs s = 3 + q" "rest_of s = rest_of s0"
    using inv by (simp_all add: rows_allocated_def)
  have run: "alloc_row_into w n (Ptr c) i s = Some (Inr ?s')"
    using ok c i f(1,2,6) by (intro alloc_row_into_ok) simp_all
  have ni: "nat i < nat n" using i by simp
  have t1: "length (tables (heap ?s')) = 3"
    by (simp add: f(1))
  have t2: "length (tables (heap ?s') ! c') = nat n" if "c' < 3" for c'
    using that f(1,2) by (cases "c' = c") simp_all
  have t3: "tables (heap ?s') ! c' ! t = (if 3 * t + c' < Suc q then Ptr (3 * t + c') else Null)"
    if "c' < 3" "t < nat n" for c' t
  proof (cases "c' = c \<and> t = nat i")
    case True
    then show ?thesis using that f(1,2,4) c q by simp
  next
    case False
    have "\<And>k::nat. 3 * t + c' = 3 * k + c \<Longrightarrow> c' < 3 \<Longrightarrow> c < 3 \<Longrightarrow> c' = c \<and> t = k"
      by presburger
    then have ne: "3 * t + c' \<noteq> q" using False q c that(1) by blast
    have "tables (heap ?s') ! c' ! t = ?T ! c' ! t"
      using False that f(1,2) c by (cases "c' = c") simp_all
    then show ?thesis using f(3)[OF that] ne by auto
  qed
  have r1: "length (rows (heap ?s')) = Suc q" by (simp add: f(4))
  have r2: "length (rows (heap ?s') ! r) = nat n" if "r < Suc q" for r
    using that f(4,5) by (cases "r = q") (simp_all add: nth_append)
  have "rows_allocated s0 n (Suc q) ?s'"
    unfolding rows_allocated_def
    using t1 t2 t3 r1 r2 f(6,7) by (simp add: rest_of_def)
  with run show ?thesis by blast
qed

lemma and_then_ok: "and_then (Some (Inr x)) f = f x"
  by (simp add: and_then_def)

lemma and_then_fault: "and_then (Some (Inl e)) f = Some (Inl e)"
  by (simp add: and_then_def)

lemma malloc_table_ok:
  "malloc_ok w (mallocs s) \<Longrightarrow>
   malloc_table w n s =
     (Ptr (length (tables (heap s))),
      s\<lparr>heap := (heap s)\<lparr>tables := tables (heap s) @ [replicate (nat n) Null]\<rparr>,
        mallocs := Suc (mallocs s)\<rparr>)"
  by (simp add: malloc_table_def)

lemma allocate_ok:
  assumes ok: "\<forall>k < 3 + 3 * nat n. malloc_ok w k" and n: "0 \<le> n" "n \<le> INT_MAX"
    and s0: "tables (heap s0) = []" "rows (heap s0) = []" "mallocs s0 = 0"
  shows "\<exists>s. allocate w n s0 = Some (Inr (Ptr 0, Ptr 1, Ptr 2, s)) \<and>
           rows_allocated s0 n (3 * nat n) s"
proof -
  let ?R = "replicate (nat n) Null"
  let ?s1 = "s0\<lparr>heap := (heap s0)\<lparr>tables := [?R]\<rparr>, mallocs := Suc 0\<rparr>"
  let ?s2 = "?s1\<lparr>heap := (heap ?s1)\<lparr>tables := [?R, ?R]\<rparr>, mallocs := Suc (Suc 0)\<rparr>"
  let ?s3 = "?s2\<lparr>heap := (heap ?s2)\<lparr>tables := [?R, ?R, ?R]\<rparr>, mallocs := Suc (Suc (Suc 0))\<rparr>"
  have k: "malloc_ok w 0" "malloc_ok w (Suc 0)" "malloc_ok w (Suc (Suc 0))"
    using ok by simp_all
  have m1: "malloc_table w n s0 = (Ptr 0, ?s1)"
    using k(1) by (simp add: malloc_table_ok s0)
  have m2: "malloc_table w n ?s1 = (Ptr 1, ?s2)"
    using k(2) by (simp add: malloc_table_ok s0)
  have m3: "malloc_table w n ?s2 = (Ptr 2, ?s3)"
    using k(3) by (simp add: malloc_table_ok s0)
  have init: "rows_allocated s0 n (3 * nat 0) ?s3"
    by (simp add: rows_allocated_def rest_of_def s0 nth_Cons' less_Suc_eq)
  let ?body = "\<lambda>i s. and_then (alloc_row_into w n (Ptr 0) i s) (\<lambda>s.
      and_then (alloc_row_into w n (Ptr 1) i s) (\<lambda>s. alloc_row_into w n (Ptr 2) i s))"
  have step: "\<exists>t'. ?body i t = Some (Inr t') \<and> rows_allocated s0 n (3 * nat (i + 1)) t'"
    if i: "0 \<le> i \<and> i < n \<and> rows_allocated s0 n (3 * nat i) t" for i t
  proof -
    have lim: "3 * nat i + 2 < 3 * nat n" using i by linarith
    have oks: "malloc_ok w (3 + (3 * nat i + 0))" "malloc_ok w (3 + Suc (3 * nat i + 0))"
      "malloc_ok w (3 + Suc (Suc (3 * nat i + 0)))"
    proof -
      have "3 + (3 * nat i + 0) < 3 + 3 * nat n" "3 + Suc (3 * nat i + 0) < 3 + 3 * nat n"
        "3 + Suc (Suc (3 * nat i + 0)) < 3 + 3 * nat n"
        using lim i by simp_all
      then show "malloc_ok w (3 + (3 * nat i + 0))" "malloc_ok w (3 + Suc (3 * nat i + 0))"
        "malloc_ok w (3 + Suc (Suc (3 * nat i + 0)))"
        using ok by blast+
    qed
    obtain ta where ta: "alloc_row_into w n (Ptr 0) i t = Some (Inr ta)"
      "rows_allocated s0 n (Suc (3 * nat i + 0)) ta"
      using alloc_row_step[of s0 n "3 * nat i + 0" t i 0 w] i oks(1) by auto
    obtain tb where tb: "alloc_row_into w n (Ptr 1) i ta = Some (Inr tb)"
      "rows_allocated s0 n (Suc (Suc (3 * nat i + 0))) tb"
      using alloc_row_step[of s0 n "Suc (3 * nat i + 0)" ta i 1 w] i oks(2) ta(2) by auto
    obtain tc where tc: "alloc_row_into w n (Ptr 2) i tb = Some (Inr tc)"
      "rows_allocated s0 n (Suc (Suc (Suc (3 * nat i + 0)))) tc"
      using alloc_row_step[of s0 n "Suc (Suc (3 * nat i + 0))" tb i 2 w] i oks(3) tb(2) by auto
    have "Suc (Suc (Suc (3 * nat i + 0))) = 3 * nat (i + 1)"
      using i by (simp add: nat_add_distrib)
    then have "rows_allocated s0 n (3 * nat (i + 1)) tc"
      using tc(2) by simp
    moreover have "?body i t = Some (Inr tc)"
      by (simp only: ta(1) tb(1) tc(1) and_then_ok)
    ultimately show ?thesis by blast
  qed
  have "\<exists>s'. for_loop 0 n 1 ?body ?s3 = Some (Inr s') \<and> rows_allocated s0 n (3 * nat n) s'"
    by (rule unit_loop_invariant[where Inv = "\<lambda>i. rows_allocated s0 n (3 * nat i)", OF n init])
       (use step in blast)
  then obtain s where s: "for_loop 0 n 1 ?body ?s3 = Some (Inr s)"
    "rows_allocated s0 n (3 * nat n) s"
    by blast
  have "allocate w n s0 = Some (Inr (Ptr 0, Ptr 1, Ptr 2, s))"
    by (simp only: allocate_def m1 m2 m3 prod.case s(1) and_then_ok ok_def)
  with s(2) show ?thesis by blast
qed

lemma allocated_tables:
  assumes "rows_allocated s0 n (3 * nat n) s" "c < 3"
  shows "row_table (heap s) (Ptr c) = map (\<lambda>t. Ptr (3 * t + c)) [0..<nat n]"
proof -
  have f: "length (tables (heap s)) = 3" "length (tables (heap s) ! c) = nat n"
    "\<And>t. t < nat n \<Longrightarrow> tables (heap s) ! c ! t = Ptr (3 * t + c)"
    using assms by (auto simp: rows_allocated_def)
  have "tables (heap s) ! c = map (\<lambda>t. Ptr (3 * t + c)) [0..<nat n]"
    by (rule nth_equalityI) (simp_all add: f)
  then show ?thesis
    using assms(2) by (simp add: row_table_def f(1))
qed

lemma allocated_matrices:
  assumes a: "rows_allocated s0 n (3 * nat n) s" and n: "0 \<le> n"
  shows "matrices (heap s) (Ptr 0) (Ptr 1) (Ptr 2) n"
proof -
  have f: "length (tables (heap s)) = 3" "\<And>c. c < 3 \<Longrightarrow> length (tables (heap s) ! c) = nat n"
    "length (rows (heap s)) = 3 * nat n"
    "\<And>r. r < 3 * nat n \<Longrightarrow> length (rows (heap s) ! r) = nat n"
    using a by (simp_all add: rows_allocated_def)
  have sq: "square_matrix (heap s) (Ptr c) n" if "c < 3" for c
  proof -
    have "tables (heap s) ! c = map (\<lambda>t. Ptr (3 * t + c)) [0..<nat n]"
      using allocated_tables[OF a that] that by (simp add: row_table_def f(1))
    moreover have "valid_row (heap s) n (Ptr (3 * t + c))" if "t < nat n" for t
      using that \<open>c < 3\<close> n f(3) f(4)[of "3 * t + c"] by (simp add: valid_row_def)
    ultimately show ?thesis
      using that n by (simp add: square_matrix_def f(1) list_all_iff)
  qed
  have inj: "inj_on (\<lambda>t. Ptr (3 * t + c)) A" for c :: nat and A
    by (simp add: inj_on_def)
  have dj: "Ptr (3 * t + c) \<noteq> Ptr (3 * t' + c')" if "c \<noteq> c'" "c < 3" "c' < 3" for t t' c c' :: nat
    using that by (simp, presburger)
  have d: "distinct (map (\<lambda>t. Ptr (3 * t + c)) [0..<nat n])" for c :: nat
    by (simp add: distinct_map inj)
  have T: "row_table (heap s) (Ptr 0) = map (\<lambda>t. Ptr (3 * t + 0)) [0..<nat n]"
    "row_table (heap s) (Ptr 1) = map (\<lambda>t. Ptr (3 * t + 1)) [0..<nat n]"
    "row_table (heap s) (Ptr 2) = map (\<lambda>t. Ptr (3 * t + 2)) [0..<nat n]"
    by (rule allocated_tables[OF a], simp)+
  have "distinct (row_table (heap s) (Ptr 0) @ row_table (heap s) (Ptr 1) @ row_table (heap s) (Ptr 2))"
    unfolding T distinct_append
    using d[of 0] d[of 1] d[of 2] dj[of 0 1] dj[of 0 2] dj[of 1 2]
    by auto
  then show ?thesis
    using sq by (simp add: matrices_def)
qed

lemma matrices_operands: "matrices m A B C n \<Longrightarrow> operands m A B C n"
  by (auto simp: matrices_def operands_def separate_def)

section \<open>The driver: seeding\<close>

lemma shape_matrices:
  assumes "shape m m'"
  shows "matrices m' A B C n = matrices m A B C n"
  by (simp add: matrices_def shape_square[OF assms] shape_row_table[OF assms])

lemma write_effect:
  fixes m :: "'a memory"
  assumes sq: "square_matrix m M n" and d: "distinct (row_table m M)"
    and i: "0 \<le> i" "i < n" and j: "0 \<le> j" "j < n"
  shows "\<exists>m'. write2 m M i j v = Inr m' \<and> shape m m' \<and>
           (\<forall>i' j'. 0 \<le> i' \<and> i' < n \<and> 0 \<le> j' \<and> j' < n \<longrightarrow>
              elem m' M i' j' = (if i' = i \<and> j' = j then v else elem m M i' j')) \<and>
           (\<forall>X i' j'. square_matrix m X n \<and> set (row_table m X) \<inter> set (row_table m M) = {} \<and>
              0 \<le> i' \<and> i' < n \<longrightarrow> elem m' X i' j' = elem m X i' j')"
proof -
  obtain m' where m': "write2 m M i j v = Inr m'" "shape m m'"
    "\<forall>r. Ptr r \<notin> set (row_table m M) \<longrightarrow> rows m' ! r = rows m ! r"
    "\<forall>i' j'. 0 \<le> i' \<and> i' < n \<and> 0 \<le> j' \<and> j' < n \<longrightarrow>
       elem m' M i' j' = (if i' = i \<and> j' = j then v else elem m M i' j')"
    using assign_effect[OF sq d i j, of v] by blast
  have "elem m' X i' j' = elem m X i' j'"
    if "square_matrix m X n \<and> set (row_table m X) \<inter> set (row_table m M) = {} \<and> 0 \<le> i' \<and> i' < n"
    for X i' j'
  proof (rule elem_unchanged[OF _ _ _ m'(2)])
    show "square_matrix m X n" "0 \<le> i'" "i' < n" using that by simp_all
    fix r assume "Ptr r \<in> set (row_table m X)"
    then have "Ptr r \<notin> set (row_table m M)" using that by blast
    then show "rows m' ! r = rows m ! r" using m'(3) by blast
  qed
  then show ?thesis
    using m'(1,2,4) by blast
qed

lemma assign_run:
  "write2 (heap s) M i j v = Inr m' \<Longrightarrow> assign M i j v s = Some (Inr (s\<lparr>heap := m'\<rparr>))"
  by (simp add: assign_def on_heap_def)

lemma rand_state_Suc: "snd (rand_next w (rand_state w k)) = rand_state w (Suc k)"
  by (simp add: rand_state_def)

lemma cell_position_inj:
  fixes i j i' j' n :: int
  assumes "0 \<le> j" "j < n" "0 \<le> j'" "j' < n" "i' * n + j' = i * n + j"
  shows "i' = i \<and> j' = j"
proof -
  have "(i' - i) * n = j - j'" using assms(5) by (simp add: algebra_simps)
  moreover have "\<bar>j - j'\<bar> < n" using assms(1-4) by linarith
  ultimately have "\<bar>(i' - i) * n\<bar> < n" by simp
  then have "\<bar>i' - i\<bar> * n < n" using assms(1,2) by (simp add: abs_mult)
  then have "\<bar>i' - i\<bar> < 1" using assms(1,2) by (simp add: mult_less_cancel_right2)
  then have "i' = i" by simp
  with assms(5) show ?thesis by simp
qed

lemma matrices_facts:
  assumes "matrices m A B C n"
  shows "square_matrix m A n" "square_matrix m B n" "square_matrix m C n"
    "distinct (row_table m A)" "distinct (row_table m B)" "distinct (row_table m C)"
    "set (row_table m B) \<inter> set (row_table m A) = {}"
    "set (row_table m C) \<inter> set (row_table m A) = {}"
    "set (row_table m A) \<inter> set (row_table m B) = {}"
    "set (row_table m C) \<inter> set (row_table m B) = {}"
    "set (row_table m A) \<inter> set (row_table m C) = {}"
    "set (row_table m B) \<inter> set (row_table m C) = {}"
  using assms by (auto simp: matrices_def)

lemma assign_random_run:
  assumes "write2 (heap s) M i j (seed_value (fst (rand_next w (rng s)))) = Inr m'"
  shows "assign_random w M i j s = Some (Inr (s\<lparr>rng := snd (rand_next w (rng s)), heap := m'\<rparr>))"
  using assms by (simp add: assign_random_def c_rand_def assign_def on_heap_def)

lemma seed_cell:
  assumes M: "matrices (heap s) A B C n" and i: "0 \<le> i" "i < n" and j: "0 \<le> j" "j < n"
  shows "\<exists>s'. and_then (assign_random w A i j s) (\<lambda>s.
                and_then (assign_random w B i j s) (\<lambda>s. assign C i j 0 s)) = Some (Inr s') \<and>
           shape (heap s) (heap s') \<and>
           rng s' = snd (rand_next w (snd (rand_next w (rng s)))) \<and>
           others_of s' = others_of s \<and>
           (\<forall>i' j'. 0 \<le> i' \<and> i' < n \<and> 0 \<le> j' \<and> j' < n \<longrightarrow>
              elem (heap s') A i' j' =
                (if i' = i \<and> j' = j then seed_value (fst (rand_next w (rng s)))
                 else elem (heap s) A i' j') \<and>
              elem (heap s') B i' j' =
                (if i' = i \<and> j' = j
                 then seed_value (fst (rand_next w (snd (rand_next w (rng s)))))
                 else elem (heap s) B i' j') \<and>
              elem (heap s') C i' j' = (if i' = i \<and> j' = j then 0 else elem (heap s) C i' j'))"
proof -
  let ?m = "heap s"
  let ?v1 = "seed_value (fst (rand_next w (rng s)))"
  let ?g1 = "snd (rand_next w (rng s))"
  let ?v2 = "seed_value (fst (rand_next w ?g1))"
  let ?g2 = "snd (rand_next w ?g1)"
  note f = matrices_facts[OF M]
  obtain m1 where m1: "write2 ?m A i j ?v1 = Inr m1" "shape ?m m1"
    "\<forall>i' j'. 0 \<le> i' \<and> i' < n \<and> 0 \<le> j' \<and> j' < n \<longrightarrow>
       elem m1 A i' j' = (if i' = i \<and> j' = j then ?v1 else elem ?m A i' j')"
    "\<forall>X i' j'. square_matrix ?m X n \<and> set (row_table ?m X) \<inter> set (row_table ?m A) = {} \<and>
       0 \<le> i' \<and> i' < n \<longrightarrow> elem m1 X i' j' = elem ?m X i' j'"
    using write_effect[OF f(1) f(4) i j, of ?v1] by blast
  have M1: "matrices m1 A B C n"
    using M by (simp add: shape_matrices[OF m1(2)])
  note f1 = matrices_facts[OF M1]
  obtain m2 where m2: "write2 m1 B i j ?v2 = Inr m2" "shape m1 m2"
    "\<forall>i' j'. 0 \<le> i' \<and> i' < n \<and> 0 \<le> j' \<and> j' < n \<longrightarrow>
       elem m2 B i' j' = (if i' = i \<and> j' = j then ?v2 else elem m1 B i' j')"
    "\<forall>X i' j'. square_matrix m1 X n \<and> set (row_table m1 X) \<inter> set (row_table m1 B) = {} \<and>
       0 \<le> i' \<and> i' < n \<longrightarrow> elem m2 X i' j' = elem m1 X i' j'"
    using write_effect[OF f1(2) f1(5) i j, of ?v2] by blast
  have M2: "matrices m2 A B C n"
    using M1 by (simp add: shape_matrices[OF m2(2)])
  note f2 = matrices_facts[OF M2]
  obtain m3 where m3: "write2 m2 C i j 0 = Inr m3" "shape m2 m3"
    "\<forall>i' j'. 0 \<le> i' \<and> i' < n \<and> 0 \<le> j' \<and> j' < n \<longrightarrow>
       elem m3 C i' j' = (if i' = i \<and> j' = j then 0 else elem m2 C i' j')"
    "\<forall>X i' j'. square_matrix m2 X n \<and> set (row_table m2 X) \<inter> set (row_table m2 C) = {} \<and>
       0 \<le> i' \<and> i' < n \<longrightarrow> elem m3 X i' j' = elem m2 X i' j'"
    using write_effect[OF f2(3) f2(6) i j, of 0] by blast
  let ?s1 = "s\<lparr>rng := ?g1, heap := m1\<rparr>"
  let ?s2 = "?s1\<lparr>rng := ?g2, heap := m2\<rparr>"
  let ?s3 = "?s2\<lparr>heap := m3\<rparr>"
  have r1: "assign_random w A i j s = Some (Inr ?s1)"
    by (rule assign_random_run[OF m1(1)])
  have r2: "assign_random w B i j ?s1 = Some (Inr ?s2)"
    using assign_random_run[of ?s1 B i j w m2] m2(1) by simp
  have r3: "assign C i j 0 ?s2 = Some (Inr ?s3)"
    using assign_run[of ?s2 C i j 0 m3] m3(1) by simp
  have run: "and_then (assign_random w A i j s) (\<lambda>s.
      and_then (assign_random w B i j s) (\<lambda>s. assign C i j 0 s)) = Some (Inr ?s3)"
    by (simp only: r1 r2 r3 and_then_ok)
  have sh: "shape ?m m3"
    by (rule shape_trans[OF shape_trans[OF m1(2) m2(2)] m3(2)])
  have cells: "elem m3 A i' j' = (if i' = i \<and> j' = j then ?v1 else elem ?m A i' j') \<and>
      elem m3 B i' j' = (if i' = i \<and> j' = j then ?v2 else elem ?m B i' j') \<and>
      elem m3 C i' j' = (if i' = i \<and> j' = j then 0 else elem ?m C i' j')"
    if r: "0 \<le> i' \<and> i' < n \<and> 0 \<le> j' \<and> j' < n" for i' j'
  proof -
    have a: "elem m3 A i' j' = elem m2 A i' j'"
      using m3(4) f2(1) f2(11) r by blast
    have b: "elem m2 A i' j' = elem m1 A i' j'"
      using m2(4) f1(1) f1(9) r by blast
    have c: "elem m3 B i' j' = elem m2 B i' j'"
      using m3(4) f2(2) f2(12) r by blast
    have d: "elem m1 B i' j' = elem ?m B i' j'"
      using m1(4) f(2) f(7) r by blast
    have e: "elem m2 C i' j' = elem m1 C i' j'"
      using m2(4) f1(3) f1(10) r by blast
    have g: "elem m1 C i' j' = elem ?m C i' j'"
      using m1(4) f(3) f(8) r by blast
    show ?thesis
      using a b c d e g m1(3) m2(3) m3(3) r by simp
  qed
  show ?thesis
  proof (intro exI conjI allI impI)
    show "and_then (assign_random w A i j s) (\<lambda>s.
      and_then (assign_random w B i j s) (\<lambda>s. assign C i j 0 s)) = Some (Inr ?s3)"
      by (rule run)
    show "shape ?m (heap ?s3)" using sh by simp
    show "rng ?s3 = ?g2" by simp
    show "others_of ?s3 = others_of s" by (simp add: others_of_def)
  next
    fix i' j' assume r: "0 \<le> i' \<and> i' < n \<and> 0 \<le> j' \<and> j' < n"
    show "elem (heap ?s3) A i' j' = (if i' = i \<and> j' = j then ?v1 else elem ?m A i' j')"
      using cells[OF r] by simp
    show "elem (heap ?s3) B i' j' = (if i' = i \<and> j' = j then ?v2 else elem ?m B i' j')"
      using cells[OF r] by simp
    show "elem (heap ?s3) C i' j' = (if i' = i \<and> j' = j then 0 else elem ?m C i' j')"
      using cells[OF r] by simp
  qed
qed

lemma seeded_step:
  assumes M: "matrices (heap s0) A B C n" and i: "0 \<le> i" "i < n" and j: "0 \<le> j" "j < n"
    and inv: "seeded w s0 A B C n (i * n + j) s"
  shows "\<exists>s'. and_then (assign_random w A i j s) (\<lambda>s.
                and_then (assign_random w B i j s) (\<lambda>s. assign C i j 0 s)) = Some (Inr s') \<and>
           seeded w s0 A B C n (i * n + (j + 1)) s'"
proof -
  let ?p = "i * n + j"
  have p0: "0 \<le> ?p" using i j by simp
  have sh0: "shape (heap s0) (heap s)" and g: "rng s = rand_state w (2 * nat ?p)"
    and o: "others_of s = others_of s0"
    and old: "\<And>i' j'. 0 \<le> i' \<Longrightarrow> i' < n \<Longrightarrow> 0 \<le> j' \<Longrightarrow> j' < n \<Longrightarrow> i' * n + j' < ?p \<Longrightarrow>
         elem (heap s) A i' j' = seed_value (draw w (2 * nat (i' * n + j'))) \<and>
         elem (heap s) B i' j' = seed_value (draw w (2 * nat (i' * n + j') + 1)) \<and>
         elem (heap s) C i' j' = 0"
    using inv by (simp_all add: seeded_def)
  have Ms: "matrices (heap s) A B C n"
    using M by (simp add: shape_matrices[OF sh0])
  obtain s' where s': "and_then (assign_random w A i j s) (\<lambda>s.
        and_then (assign_random w B i j s) (\<lambda>s. assign C i j 0 s)) = Some (Inr s')"
    "shape (heap s) (heap s')"
    "rng s' = snd (rand_next w (snd (rand_next w (rng s))))"
    "others_of s' = others_of s"
    "\<forall>i' j'. 0 \<le> i' \<and> i' < n \<and> 0 \<le> j' \<and> j' < n \<longrightarrow>
       elem (heap s') A i' j' =
         (if i' = i \<and> j' = j then seed_value (fst (rand_next w (rng s)))
          else elem (heap s) A i' j') \<and>
       elem (heap s') B i' j' =
         (if i' = i \<and> j' = j
          then seed_value (fst (rand_next w (snd (rand_next w (rng s)))))
          else elem (heap s) B i' j') \<and>
       elem (heap s') C i' j' = (if i' = i \<and> j' = j then 0 else elem (heap s) C i' j')"
    using seed_cell[OF Ms i j, of w] by blast
  have v1: "fst (rand_next w (rng s)) = draw w (2 * nat ?p)"
    by (simp add: g draw_def)
  have g1: "snd (rand_next w (rng s)) = rand_state w (Suc (2 * nat ?p))"
    by (simp add: g rand_state_Suc)
  have v2: "fst (rand_next w (snd (rand_next w (rng s)))) = draw w (2 * nat ?p + 1)"
    by (simp add: g1 draw_def)
  have np: "nat (i * n + (j + 1)) = Suc (nat ?p)"
    using p0 by (simp add: nat_add_distrib add.assoc[symmetric])
  have g2: "rng s' = rand_state w (2 * nat (i * n + (j + 1)))"
    by (simp add: s'(3) g1 rand_state_Suc np)
  have new: "elem (heap s') A i' j' = seed_value (draw w (2 * nat (i' * n + j'))) \<and>
      elem (heap s') B i' j' = seed_value (draw w (2 * nat (i' * n + j') + 1)) \<and>
      elem (heap s') C i' j' = 0"
    if r: "0 \<le> i' \<and> i' < n \<and> 0 \<le> j' \<and> j' < n \<and> i' * n + j' < i * n + (j + 1)" for i' j'
  proof -
    have inst: "elem (heap s') A i' j' =
         (if i' = i \<and> j' = j then seed_value (fst (rand_next w (rng s)))
          else elem (heap s) A i' j') \<and>
       elem (heap s') B i' j' =
         (if i' = i \<and> j' = j
          then seed_value (fst (rand_next w (snd (rand_next w (rng s)))))
          else elem (heap s) B i' j') \<and>
       elem (heap s') C i' j' = (if i' = i \<and> j' = j then 0 else elem (heap s) C i' j')"
      using s'(5) r by blast
    show ?thesis
    proof (cases "i' = i \<and> j' = j")
      case True
      then show ?thesis
        using inst v1 v2 by simp
    next
      case False
      have "i' * n + j' \<noteq> ?p"
        using cell_position_inj[OF j, of j' i'] r False by blast
      then have lt: "i' * n + j' < ?p" using r by simp
      have "elem (heap s) A i' j' = seed_value (draw w (2 * nat (i' * n + j'))) \<and>
         elem (heap s) B i' j' = seed_value (draw w (2 * nat (i' * n + j') + 1)) \<and>
         elem (heap s) C i' j' = 0"
        using old[of i' j'] lt r by blast
      then show ?thesis
        using inst False by simp
    qed
  qed
  have "seeded w s0 A B C n (i * n + (j + 1)) s'"
    unfolding seeded_def
    using shape_trans[OF sh0 s'(2)] g2 s'(4) o new by simp
  with s'(1) show ?thesis by blast
qed

lemma seed_ok:
  assumes M: "matrices (heap s) A B C n" and n: "0 \<le> n" "n \<le> INT_MAX"
  shows "\<exists>s'. seed w A B C n s = Some (Inr s') \<and> seeded w s A B C n (n * n) s'"
proof -
  let ?cell = "\<lambda>i j s. and_then (assign_random w A i j s) (\<lambda>s.
      and_then (assign_random w B i j s) (\<lambda>s. assign C i j 0 s))"
  let ?s = "s\<lparr>rng := srand_state w 42\<rparr>"
  have row: "\<exists>t'. for_loop 0 n 1 (?cell i) t = Some (Inr t') \<and> seeded w s A B C n ((i + 1) * n) t'"
    if i: "0 \<le> i \<and> i < n \<and> seeded w s A B C n (i * n) t" for i t
  proof -
    have "\<exists>t'. for_loop 0 n 1 (?cell i) t = Some (Inr t') \<and> seeded w s A B C n (i * n + n) t'"
    proof (rule unit_loop_invariant[where Inv = "\<lambda>j. seeded w s A B C n (i * n + j)", OF n])
      show "seeded w s A B C n (i * n + 0) t" using i by simp
      show "\<forall>j u. 0 \<le> j \<and> j < n \<and> seeded w s A B C n (i * n + j) u \<longrightarrow>
          (\<exists>t'. ?cell i j u = Some (Inr t') \<and> seeded w s A B C n (i * n + (j + 1)) t')"
        using seeded_step[OF M, of i _ w] i by blast
    qed
    moreover have "i * n + n = (i + 1) * n" by (simp add: algebra_simps)
    ultimately show ?thesis by simp
  qed
  have init: "seeded w s A B C n (0 * n) ?s"
  proof -
    have nn: "\<not> i * n + j < 0" if "0 \<le> i" "0 \<le> j" for i j :: int
      using that n(1) by (simp add: not_less)
    show ?thesis
      unfolding seeded_def using nn by (auto simp: shape_refl rand_state_def others_of_def)
  qed
  have "\<exists>s'. for_loop 0 n 1 (\<lambda>i. for_loop 0 n 1 (?cell i)) ?s = Some (Inr s') \<and>
      seeded w s A B C n (n * n) s'"
    by (rule unit_loop_invariant[where Inv = "\<lambda>i. seeded w s A B C n (i * n)", OF n init])
       (use row in blast)
  then show ?thesis
    by (simp add: seed_def)
qed

section \<open>The driver: timed runs and the sweep\<close>

lemma prepare_ok:
  assumes ok: "\<forall>k < 3 + 3 * nat n. malloc_ok w k" and n: "0 \<le> n" "n \<le> INT_MAX"
    and s0: "tables (heap s0) = []" "rows (heap s0) = []" "mallocs s0 = 0"
  shows "\<exists>s. prepare w n s0 = Some (Inr (Ptr 0, Ptr 1, Ptr 2, s)) \<and>
           matrices (heap s) (Ptr 0) (Ptr 1) (Ptr 2) n \<and>
           clocks s = clocks s0 \<and> console s = console s0 \<and> listing s = listing s0 \<and>
           (\<forall>i j. 0 \<le> i \<and> i < n \<and> 0 \<le> j \<and> j < n \<longrightarrow>
              elem (heap s) (Ptr 0) i j = seed_value (draw w (2 * nat (i * n + j))) \<and>
              elem (heap s) (Ptr 1) i j = seed_value (draw w (2 * nat (i * n + j) + 1)) \<and>
              elem (heap s) (Ptr 2) i j = 0)"
proof -
  obtain s1 where s1: "allocate w n s0 = Some (Inr (Ptr 0, Ptr 1, Ptr 2, s1))"
    "rows_allocated s0 n (3 * nat n) s1"
    using allocate_ok[OF ok n s0] by blast
  have M1: "matrices (heap s1) (Ptr 0) (Ptr 1) (Ptr 2) n"
    by (rule allocated_matrices[OF s1(2) n(1)])
  obtain s2 where s2: "seed w (Ptr 0) (Ptr 1) (Ptr 2) n s1 = Some (Inr s2)"
    "seeded w s1 (Ptr 0) (Ptr 1) (Ptr 2) n (n * n) s2"
    using seed_ok[OF M1 n] by blast
  have sh: "shape (heap s1) (heap s2)" and o: "others_of s2 = others_of s1"
    and cells: "\<And>i j. 0 \<le> i \<and> i < n \<and> 0 \<le> j \<and> j < n \<and> i * n + j < n * n \<Longrightarrow>
         elem (heap s2) (Ptr 0) i j = seed_value (draw w (2 * nat (i * n + j))) \<and>
         elem (heap s2) (Ptr 1) i j = seed_value (draw w (2 * nat (i * n + j) + 1)) \<and>
         elem (heap s2) (Ptr 2) i j = 0"
    using s2(2) by (simp_all add: seeded_def)
  have r: "rest_of s1 = rest_of s0"
    using s1(2) by (simp add: rows_allocated_def)
  have M2: "matrices (heap s2) (Ptr 0) (Ptr 1) (Ptr 2) n"
    using M1 by (simp add: shape_matrices[OF sh])
  have lt: "i * n + j < n * n" if "0 \<le> i \<and> i < n \<and> 0 \<le> j \<and> j < n" for i j :: int
  proof -
    have "i + 1 \<le> n" using that by simp
    then have "(i + 1) * n \<le> n * n" using n(1) by (intro mult_right_mono) simp_all
    then show ?thesis using that by (simp add: algebra_simps)
  qed
  have run: "prepare w n s0 = Some (Inr (Ptr 0, Ptr 1, Ptr 2, s2))"
    by (simp only: prepare_def s1(1) s2(1) and_then_ok prod.case ok_def)
  have f: "clocks s2 = clocks s0" "console s2 = console s0" "listing s2 = listing s0"
    using o r by (simp_all add: others_of_def rest_of_def)
  show ?thesis
    using run M2 f cells lt by blast
qed

lemma clear_C_ok:
  assumes sq: "square_matrix (heap s) C n" and d: "distinct (row_table (heap s) C)"
    and n: "0 \<le> n" "n \<le> INT_MAX"
  shows "\<exists>m'. clear_C C n s = Some (Inr (s\<lparr>heap := m'\<rparr>)) \<and> shape (heap s) m'"
proof -
  let ?Inv = "\<lambda>t. \<exists>m'. t = s\<lparr>heap := m'\<rparr> \<and> shape (heap s) m'"
  have cell: "\<exists>t'. assign C i j 0 t = Some (Inr t') \<and> ?Inv t'"
    if r: "0 \<le> i \<and> i < n" "0 \<le> j \<and> j < n \<and> ?Inv t" for i j t
  proof -
    obtain m' where m': "t = s\<lparr>heap := m'\<rparr>" "shape (heap s) m'"
      using r(2) by blast
    have sq': "square_matrix m' C n" and d': "distinct (row_table m' C)"
      using sq d by (simp_all add: shape_square[OF m'(2)] shape_row_table[OF m'(2)])
    obtain m'' where m'': "write2 m' C i j 0 = Inr m''" "shape m' m''"
      using assign_effect[OF sq' d', of i j 0] r by blast
    have "assign C i j 0 t = Some (Inr (s\<lparr>heap := m''\<rparr>))"
      using assign_run[of t C i j 0 m''] m''(1) m'(1) by simp
    then show ?thesis
      using shape_trans[OF m'(2) m''(2)] by blast
  qed
  have row: "\<exists>t'. for_loop 0 n 1 (\<lambda>j. assign C i j 0) t = Some (Inr t') \<and> ?Inv t'"
    if r: "0 \<le> i \<and> i < n \<and> ?Inv t" for i t
    by (rule unit_loop_invariant[where Inv = "\<lambda>j. ?Inv", OF n])
       (use r cell in blast)+
  have "\<exists>t'. for_loop 0 n 1 (\<lambda>i. for_loop 0 n 1 (\<lambda>j. assign C i j 0)) s = Some (Inr t') \<and> ?Inv t'"
  proof (rule unit_loop_invariant[where Inv = "\<lambda>i. ?Inv", OF n])
    have "s = s\<lparr>heap := heap s\<rparr>" by simp
    then show "?Inv s" using shape_refl by blast
    show "\<forall>i t. 0 \<le> i \<and> i < n \<and> ?Inv t \<longrightarrow>
        (\<exists>t'. for_loop 0 n 1 (\<lambda>j. assign C i j 0) t = Some (Inr t') \<and> ?Inv t')"
      using row by blast
  qed
  then show ?thesis
    by (auto simp: clear_C_def)
qed

lemma timed_run:
  assumes "multiply (heap s) = Some (Inr m')"
  shows "timed w multiply s =
     Some (Inr ((seconds w (clock_at w (Suc (clocks s))) - seconds w (clock_at w (clocks s))) * 1000,
                s\<lparr>heap := m', clocks := Suc (Suc (clocks s))\<rparr>))"
  using assms by (simp add: timed_def c_clock_def run_heap_def and_then_def ok_def)

lemma kernel_run:
  fixes m :: "real memory"
  assumes ops: "operands m A B C n" and n: "n \<le> INT_MAX"
    and bs: "0 < bs" "last_counter n bs \<le> INT_MAX"
  shows "\<exists>m'. (if bs = 512 then matrix_multiply_standard A B C n
                else matrix_multiply_blocked A B C n bs) m = Some (Inr m') \<and> shape m m'"
proof (cases "bs = 512")
  case True
  then show ?thesis
    using standard_result[OF ops n] result_of_shape by fastforce
next
  case False
  then show ?thesis
    using blocked_result[OF ops bs] result_of_shape by fastforce
qed

lemma sweep_step_run:
  assumes ops: "operands (heap s) A B C n" and n: "0 \<le> n" "n \<le> INT_MAX"
    and bs: "0 < bss ! nat k" "last_counter n (bss ! nat k) \<le> INT_MAX"
    and k: "0 \<le> k" "k < int (length bss)"
  shows "\<exists>m'. shape (heap s) m' \<and>
     sweep_step w A B C n bss k s =
       Some (Inr (emit
         (Measurement (bss ! nat k)
            ((seconds w (clock_at w (Suc (clocks s))) - seconds w (clock_at w (clocks s))) * 1000)
            (bandwidth_of n
               ((seconds w (clock_at w (Suc (clocks s))) - seconds w (clock_at w (clocks s))) * 1000))
            (ddiv
               (if bss ! nat k = 512 \<or> k = 0
                then (seconds w (clock_at w (Suc (clocks s))) - seconds w (clock_at w (clocks s))) * 1000
                else standard_time s)
               ((seconds w (clock_at w (Suc (clocks s))) - seconds w (clock_at w (clocks s))) * 1000)))
         (s\<lparr>heap := m', clocks := Suc (Suc (clocks s)),
            standard_time :=
              (if bss ! nat k = 512 \<or> k = 0
               then (seconds w (clock_at w (Suc (clocks s))) - seconds w (clock_at w (clocks s))) * 1000
               else standard_time s)\<rparr>)))"
proof -
  let ?bs = "bss ! nat k"
  let ?mult = "if ?bs = 512 then matrix_multiply_standard A B C n
               else matrix_multiply_blocked A B C n ?bs"
  have sq: "square_matrix (heap s) C n" and d: "distinct (row_table (heap s) C)"
    using ops by (simp_all add: operands_def separate_def)
  obtain m1 where m1: "clear_C C n s = Some (Inr (s\<lparr>heap := m1\<rparr>))" "shape (heap s) m1"
    using clear_C_ok[OF sq d n] by blast
  have ops1: "operands m1 A B C n"
    using ops by (simp add: shape_operands[OF m1(2)])
  obtain m2 where m2: "?mult m1 = Some (Inr m2)" "shape m1 m2"
    using kernel_run[OF ops1 n(2) bs] by blast
  have t: "timed w ?mult (s\<lparr>heap := m1\<rparr>) =
      Some (Inr ((seconds w (clock_at w (Suc (clocks s))) - seconds w (clock_at w (clocks s))) * 1000,
                 s\<lparr>heap := m2, clocks := Suc (Suc (clocks s))\<rparr>))"
    using timed_run[of ?mult "s\<lparr>heap := m1\<rparr>" m2 w] m2(1) by simp
  have "sweep_step w A B C n bss k s =
       Some (Inr (emit
         (Measurement (bss ! nat k)
            ((seconds w (clock_at w (Suc (clocks s))) - seconds w (clock_at w (clocks s))) * 1000)
            (bandwidth_of n
               ((seconds w (clock_at w (Suc (clocks s))) - seconds w (clock_at w (clocks s))) * 1000))
            (ddiv
               (if bss ! nat k = 512 \<or> k = 0
                then (seconds w (clock_at w (Suc (clocks s))) - seconds w (clock_at w (clocks s))) * 1000
                else standard_time s)
               ((seconds w (clock_at w (Suc (clocks s))) - seconds w (clock_at w (clocks s))) * 1000)))
         (s\<lparr>heap := m2, clocks := Suc (Suc (clocks s)),
            standard_time :=
              (if bss ! nat k = 512 \<or> k = 0
               then (seconds w (clock_at w (Suc (clocks s))) - seconds w (clock_at w (clocks s))) * 1000
               else standard_time s)\<rparr>)))"
    unfolding sweep_step_def Let_def m1(1) and_then_ok t prod.case ok_def
    using k by (simp add: emit_def)
  then show ?thesis
    using shape_trans[OF m1(2) m2(2)] by blast
qed

lemma final_run_ok:
  assumes ops: "operands (heap s) A B C n" and n: "0 \<le> n" "n \<le> INT_MAX"
  shows "\<exists>m'. shape (heap s) m' \<and>
     final_run w A B C n s =
       Some (Inr (emit
         (Standard
            ((seconds w (clock_at w (Suc (clocks s))) - seconds w (clock_at w (clocks s))) * 1000)
            (bandwidth_of n
               ((seconds w (clock_at w (Suc (clocks s))) - seconds w (clock_at w (clocks s))) * 1000))
            1)
         (s\<lparr>heap := m', clocks := Suc (Suc (clocks s))\<rparr>)))"
proof -
  have sq: "square_matrix (heap s) C n" and d: "distinct (row_table (heap s) C)"
    using ops by (simp_all add: operands_def separate_def)
  obtain m1 where m1: "clear_C C n s = Some (Inr (s\<lparr>heap := m1\<rparr>))" "shape (heap s) m1"
    using clear_C_ok[OF sq d n] by blast
  have ops1: "operands m1 A B C n"
    using ops by (simp add: shape_operands[OF m1(2)])
  obtain m2 where m2: "matrix_multiply_standard A B C n m1 = Some (Inr m2)" "shape m1 m2"
    using standard_result[OF ops1 n(2)] result_of_shape by blast
  have t: "timed w (matrix_multiply_standard A B C n) (s\<lparr>heap := m1\<rparr>) =
      Some (Inr ((seconds w (clock_at w (Suc (clocks s))) - seconds w (clock_at w (clocks s))) * 1000,
                 s\<lparr>heap := m2, clocks := Suc (Suc (clocks s))\<rparr>))"
    using timed_run[of "matrix_multiply_standard A B C n" "s\<lparr>heap := m1\<rparr>" m2 w] m2(1) by simp
  have "final_run w A B C n s =
       Some (Inr (emit
         (Standard
            ((seconds w (clock_at w (Suc (clocks s))) - seconds w (clock_at w (clocks s))) * 1000)
            (bandwidth_of n
               ((seconds w (clock_at w (Suc (clocks s))) - seconds w (clock_at w (clocks s))) * 1000))
            1)
         (s\<lparr>heap := m2, clocks := Suc (Suc (clocks s))\<rparr>)))"
    unfolding final_run_def m1(1) and_then_ok t prod.case ok_def
    by simp
  then show ?thesis
    using shape_trans[OF m1(2) m2(2)] by blast
qed

lemma sweep_run:
  assumes ops: "operands (heap s) A B C n" and n: "0 \<le> n" "n \<le> INT_MAX"
    and bss: "\<forall>b \<in> set bss. 0 < b \<and> b \<noteq> 512 \<and> last_counter n b \<le> INT_MAX"
    and len: "int (length bss) \<le> INT_MAX" and c: "clocks s = 0"
  shows "\<exists>t. for_loop 0 (int (length bss)) 1 (sweep_step w A B C n bss) s = Some (Inr t) \<and>
           swept w n bss s (int (length bss)) t"
proof (rule unit_loop_invariant[where Inv = "swept w n bss s", OF _ len])
  show "0 \<le> int (length bss)" by simp
  show "swept w n bss s 0 s"
    by (simp add: swept_def shape_refl c)
  show "\<forall>k t. 0 \<le> k \<and> k < int (length bss) \<and> swept w n bss s k t \<longrightarrow>
      (\<exists>t'. sweep_step w A B C n bss k t = Some (Inr t') \<and> swept w n bss s (k + 1) t')"
  proof (intro allI impI)
    fix k t assume h: "0 \<le> k \<and> k < int (length bss) \<and> swept w n bss s k t"
    then have k: "0 \<le> k" "nat k < length bss" and kl: "k < int (length bss)"
      and inv: "swept w n bss s k t"
      by auto
    have sh: "shape (heap s) (heap t)" and ct: "clocks t = 2 * nat k"
      and co: "console t = console s @ map (measured w n bss) [0..<nat k]"
      and li: "listing t = listing s @ map (measured w n bss) [0..<nat k]"
      and st: "0 < k \<Longrightarrow> standard_time t = elapsed w 0"
      using inv by (simp_all add: swept_def)
    have b: "0 < bss ! nat k" "bss ! nat k \<noteq> 512" "last_counter n (bss ! nat k) \<le> INT_MAX"
      using bss k(2) by simp_all
    have opst: "operands (heap t) A B C n"
      using ops by (simp add: shape_operands[OF sh])
    let ?e = "(seconds w (clock_at w (Suc (clocks t))) - seconds w (clock_at w (clocks t))) * 1000"
    have e: "?e = elapsed w (nat k)"
      by (simp add: elapsed_def ct)
    have base: "(if bss ! nat k = 512 \<or> k = 0 then ?e else standard_time t) = elapsed w 0"
    proof (cases "k = 0")
      case True
      then show ?thesis using e by simp
    next
      case False
      then have "0 < k" using k(1) by simp
      then show ?thesis using st b(2) False by simp
    qed
    obtain m' where m': "shape (heap t) m'"
      "sweep_step w A B C n bss k t =
         Some (Inr (emit
           (Measurement (bss ! nat k) ?e (bandwidth_of n ?e)
              (ddiv (if bss ! nat k = 512 \<or> k = 0 then ?e else standard_time t) ?e))
           (t\<lparr>heap := m', clocks := Suc (Suc (clocks t)),
              standard_time := (if bss ! nat k = 512 \<or> k = 0 then ?e else standard_time t)\<rparr>)))"
      using sweep_step_run[OF opst n b(1,3) k(1) kl, of w] by blast
    let ?t' = "emit (measured w n bss (nat k))
        (t\<lparr>heap := m', clocks := Suc (Suc (clocks t)), standard_time := elapsed w 0\<rparr>)"
    have run: "sweep_step w A B C n bss k t = Some (Inr ?t')"
    proof -
      have "sweep_step w A B C n bss k t =
         Some (Inr (emit
           (Measurement (bss ! nat k) ?e (bandwidth_of n ?e) (ddiv (elapsed w 0) ?e))
           (t\<lparr>heap := m', clocks := Suc (Suc (clocks t)), standard_time := elapsed w 0\<rparr>)))"
        using m'(2) by (simp only: base)
      then show ?thesis
        by (simp only: e measured_def)
    qed
    have nk: "nat (k + 1) = Suc (nat k)" using k(1) by simp
    have "swept w n bss s (k + 1) ?t'"
      unfolding swept_def nk
      using shape_trans[OF sh m'(1)] ct co li by (simp add: emit_def)
    with run show "\<exists>t'. sweep_step w A B C n bss k t = Some (Inr t') \<and> swept w n bss s (k + 1) t'"
      by blast
  qed
qed

lemma driver_run:
  assumes ok: "\<forall>k < 3 + 3 * nat n. malloc_ok w k" and fo: "fopen_ok w"
    and n: "0 \<le> n" "n \<le> INT_MAX"
    and bss: "\<forall>b \<in> set bss. 0 < b \<and> b \<noteq> 512 \<and> last_counter n b \<le> INT_MAX"
    and len: "int (length bss) \<le> INT_MAX"
  shows "\<exists>s. driver w n bss (start_state w) = Some (Inr (0, s)) \<and>
           listing s = listing_headers n @ report w n bss \<and>
           console s = console_headers n @ report w n bss @
             [Text ''Results saved to mxm_bloc_results.txt'']"
proof -
  let ?A = "Ptr 0" and ?B = "Ptr 1" and ?C = "Ptr 2"
  obtain s2 where s2: "prepare w n (start_state w) = Some (Inr (?A, ?B, ?C, s2))"
    "matrices (heap s2) ?A ?B ?C n" "clocks s2 = 0" "console s2 = []" "listing s2 = []"
    using prepare_ok[OF ok n, of "start_state w"] by (auto simp: start_state_def)
  let ?h = "(headers n s2)\<lparr>standard_time := 0\<rparr>"
  have h: "heap ?h = heap s2" "clocks ?h = 0" "console ?h = console_headers n"
    "listing ?h = listing_headers n"
    by (simp_all add: headers_def s2 console_headers_def listing_headers_def)
  have ops: "operands (heap ?h) ?A ?B ?C n"
    using matrices_operands[OF s2(2)] by (simp add: h(1))
  obtain t where t: "for_loop 0 (int (length bss)) 1 (sweep_step w ?A ?B ?C n bss) ?h = Some (Inr t)"
    "swept w n bss ?h (int (length bss)) t"
    using sweep_run[OF ops n bss len h(2)] by blast
  have sh: "shape (heap ?h) (heap t)" and ct: "clocks t = 2 * length bss"
    and co: "console t = console_headers n @ map (measured w n bss) [0..<length bss]"
    and li: "listing t = listing_headers n @ map (measured w n bss) [0..<length bss]"
    using t(2) by (simp_all add: swept_def h(3,4))
  have opst: "operands (heap t) ?A ?B ?C n"
    using ops by (simp add: shape_operands[OF sh])
  obtain m' where m': "final_run w ?A ?B ?C n t =
       Some (Inr (emit
         (Standard
            ((seconds w (clock_at w (Suc (clocks t))) - seconds w (clock_at w (clocks t))) * 1000)
            (bandwidth_of n
               ((seconds w (clock_at w (Suc (clocks t))) - seconds w (clock_at w (clocks t))) * 1000))
            1)
         (t\<lparr>heap := m', clocks := Suc (Suc (clocks t))\<rparr>)))"
    using final_run_ok[OF opst n, of w] by blast
  have e: "(seconds w (clock_at w (Suc (clocks t))) - seconds w (clock_at w (clocks t))) * 1000 =
      elapsed w (length bss)"
    by (simp add: elapsed_def ct)
  let ?u = "emit (Standard (elapsed w (length bss)) (bandwidth_of n (elapsed w (length bss))) 1)
      (t\<lparr>heap := m', clocks := Suc (Suc (clocks t))\<rparr>)"
  have f: "final_run w ?A ?B ?C n t = Some (Inr ?u)"
    using m' by (simp only: e)
  let ?s = "?u\<lparr>console := console ?u @ [Text ''Results saved to mxm_bloc_results.txt'']\<rparr>"
  have run: "driver w n bss (start_state w) = Some (Inr (0, ?s))"
    by (simp only: driver_def s2(1) and_then_ok prod.case fo not_True_eq_False if_False t(1) f ok_def)
  have "listing ?s = listing_headers n @ report w n bss"
    by (simp add: emit_def li report_def)
  moreover have "console ?s = console_headers n @ report w n bss @
      [Text ''Results saved to mxm_bloc_results.txt'']"
    by (simp add: emit_def co report_def)
  ultimately show ?thesis
    using run by blast
qed

lemma block_sizes_fit:
  "\<forall>b \<in> set block_sizes. 0 < b \<and> b \<noteq> 512 \<and> last_counter N b \<le> INT_MAX"
  by (simp add: block_sizes_def N_def last_counter_def INT_MAX_def)

lemma main_run:
  assumes ok: "\<forall>k < 1539. malloc_ok w k" and fo: "fopen_ok w"
  shows "\<exists>s. main w = Some (Inr (0, s)) \<and>
           listing s = listing_headers N @ report w N block_sizes \<and>
           console s = console_headers N @ report w N block_sizes @
             [Text ''Results saved to mxm_bloc_results.txt'']"
  unfolding main_def
proof (rule driver_run[OF _ fo _ _ block_sizes_fit])
  show "\<forall>k < 3 + 3 * nat N. malloc_ok w k" using ok by (simp add: N_def)
  show "0 \<le> N" "N \<le> INT_MAX" by (simp_all add: N_def INT_MAX_def)
  show "int (length block_sizes) \<le> INT_MAX" by (simp add: block_sizes_def INT_MAX_def)
qed

section \<open>The driver: what a run records\<close>

lemma elapsed_clocks:
  "elapsed w k =
     real_of_int (clock_at w (Suc (2 * k)) - clock_at w (2 * k)) * 1000 /
     real_of_int (clocks_per_sec w)"
  by (simp add: elapsed_def seconds_def diff_divide_distrib)

lemma elapsed_lcg: "elapsed lcg_world k = 4 * real k + 1"
  by (simp add: elapsed_clocks lcg_world_def algebra_simps)

lemma bandwidth_formula:
  "bandwidth_of N msec =
     (if msec = 0 then None
      else Some (real_of_int (4 * 512 * 512 * 512 * 8) * (1000 / msec) / (1024 * 1024)))"
  by (simp add: bandwidth_of_def ddiv_def total_bytes_def total_ops_def sizeof_double_def N_def)



lemma seed_value_range:
  assumes "0 \<le> x"
  shows "seed_value x = real_of_int (x mod 10) + 1" "1 \<le> seed_value x" "seed_value x \<le> 10"
proof -
  have r: "c_rem x 10 = x mod 10"
    using assms by (cases "x = 0") (simp_all add: c_rem_def)
  have "0 \<le> x mod 10" "x mod 10 \<le> 9" by simp_all
  then show "seed_value x = real_of_int (x mod 10) + 1" "1 \<le> seed_value x" "seed_value x \<le> 10"
    by (simp_all add: seed_value_def r)
qed

lemma same_draws:
  assumes "srand_state w' = srand_state w" "rand_next w' = rand_next w"
  shows "draw w' k = draw w k"
  by (simp add: draw_def rand_state_def assms)

text \<open>
  Claim C7. Input generation is deterministic. Take two executions of the driver, in worlds
  \<open>w\<close> and \<open>w'\<close> that share the generator of the C library (\<open>srand_state\<close> and \<open>rand_next\<close>)
  and may differ in everything else: the contents of fresh memory, the clock, whether the
  result file opens. If the \<open>3 + 3 * 512 = 1539\<close> allocations succeed in both, both reach
  the end of the seeding loops with the same three pointers, and \<open>A\<close> and \<open>B\<close> hold the same
  values element for element: \<open>A[i][j]\<close> is \<open>(r mod 10) + 1\<close> for the value \<open>r\<close> of call number
  \<open>2 (i N + j)\<close> of \<open>rand()\<close> after \<open>srand(42)\<close>, and \<open>B[i][j]\<close> for that of call number
  \<open>2 (i N + j) + 1\<close>; every value lies between \<open>1\<close> and \<open>10\<close>. The last hypothesis says that
  \<open>rand()\<close> returns a nonnegative \<open>int\<close>, as the C standard requires.
\<close>

theorem seeding_deterministic:
  assumes ok: "\<forall>k < 1539. malloc_ok w k" and ok': "\<forall>k < 1539. malloc_ok w' k"
    and same: "srand_state w' = srand_state w" "rand_next w' = rand_next w"
    and range: "\<forall>g. 0 \<le> fst (rand_next w g)"
  shows "\<exists>A B C s s'.
           prepare w N (start_state w) = Some (Inr (A, B, C, s)) \<and>
           prepare w' N (start_state w') = Some (Inr (A, B, C, s')) \<and>
           (\<forall>i j. 0 \<le> i \<and> i < N \<and> 0 \<le> j \<and> j < N \<longrightarrow>
              elem (heap s') A i j = elem (heap s) A i j \<and>
              elem (heap s') B i j = elem (heap s) B i j \<and>
              elem (heap s) A i j = real_of_int (draw w (2 * nat (i * N + j)) mod 10) + 1 \<and>
              elem (heap s) B i j = real_of_int (draw w (2 * nat (i * N + j) + 1) mod 10) + 1 \<and>
              1 \<le> elem (heap s) A i j \<and> elem (heap s) A i j \<le> 10 \<and>
              1 \<le> elem (heap s) B i j \<and> elem (heap s) B i j \<le> 10)"
proof -
  have n: "0 \<le> N" "N \<le> INT_MAX" by (simp_all add: N_def INT_MAX_def)
  have k: "\<forall>k < 3 + 3 * nat N. malloc_ok w k" "\<forall>k < 3 + 3 * nat N. malloc_ok w' k"
    using ok ok' by (simp_all add: N_def)
  obtain s where s: "prepare w N (start_state w) = Some (Inr (Ptr 0, Ptr 1, Ptr 2, s))"
    "\<And>i j. 0 \<le> i \<and> i < N \<and> 0 \<le> j \<and> j < N \<Longrightarrow>
       elem (heap s) (Ptr 0) i j = seed_value (draw w (2 * nat (i * N + j))) \<and>
       elem (heap s) (Ptr 1) i j = seed_value (draw w (2 * nat (i * N + j) + 1))"
    using prepare_ok[OF k(1) n, of "start_state w"] by (auto simp: start_state_def)
  obtain s' where s': "prepare w' N (start_state w') = Some (Inr (Ptr 0, Ptr 1, Ptr 2, s'))"
    "\<And>i j. 0 \<le> i \<and> i < N \<and> 0 \<le> j \<and> j < N \<Longrightarrow>
       elem (heap s') (Ptr 0) i j = seed_value (draw w' (2 * nat (i * N + j))) \<and>
       elem (heap s') (Ptr 1) i j = seed_value (draw w' (2 * nat (i * N + j) + 1))"
    using prepare_ok[OF k(2) n, of "start_state w'"] by (auto simp: start_state_def)
  have d: "0 \<le> draw w k" for k
    using range by (simp add: draw_def)
  have "elem (heap s') (Ptr 0) i j = elem (heap s) (Ptr 0) i j \<and>
      elem (heap s') (Ptr 1) i j = elem (heap s) (Ptr 1) i j \<and>
      elem (heap s) (Ptr 0) i j = real_of_int (draw w (2 * nat (i * N + j)) mod 10) + 1 \<and>
      elem (heap s) (Ptr 1) i j = real_of_int (draw w (2 * nat (i * N + j) + 1) mod 10) + 1 \<and>
      1 \<le> elem (heap s) (Ptr 0) i j \<and> elem (heap s) (Ptr 0) i j \<le> 10 \<and>
      1 \<le> elem (heap s) (Ptr 1) i j \<and> elem (heap s) (Ptr 1) i j \<le> 10"
    if r: "0 \<le> i \<and> i < N \<and> 0 \<le> j \<and> j < N" for i j
    using s(2)[OF r] s'(2)[OF r] same_draws[OF same] seed_value_range[OF d]
    by simp
  then show ?thesis
    using s(1) s'(1) by blast
qed

lemma lcg_mallocs: "\<forall>k < 1539. malloc_ok lcg_world k"
  by (simp add: lcg_world_def)

theorem seeding_deterministic_witness:
  "srand_state other_world = srand_state lcg_world \<and>
   rand_next other_world = rand_next lcg_world \<and>
   junk other_world \<noteq> junk lcg_world \<and>
   (\<exists>A B C s s'.
      prepare lcg_world N (start_state lcg_world) = Some (Inr (A, B, C, s)) \<and>
      prepare other_world N (start_state other_world) = Some (Inr (A, B, C, s')) \<and>
      (\<forall>i j. 0 \<le> i \<and> i < N \<and> 0 \<le> j \<and> j < N \<longrightarrow>
         elem (heap s') A i j = elem (heap s) A i j \<and>
         elem (heap s') B i j = elem (heap s) B i j \<and>
         elem (heap s) A i j = real_of_int (draw lcg_world (2 * nat (i * N + j)) mod 10) + 1 \<and>
         elem (heap s) B i j = real_of_int (draw lcg_world (2 * nat (i * N + j) + 1) mod 10) + 1 \<and>
         1 \<le> elem (heap s) A i j \<and> elem (heap s) A i j \<le> 10 \<and>
         1 \<le> elem (heap s) B i j \<and> elem (heap s) B i j \<le> 10))"
proof -
  have a: "\<forall>k < 1539. malloc_ok lcg_world k" "\<forall>k < 1539. malloc_ok other_world k"
    "srand_state other_world = srand_state lcg_world"
    "rand_next other_world = rand_next lcg_world"
    "\<forall>g. 0 \<le> fst (rand_next lcg_world g)"
    by (simp_all add: lcg_world_def other_world_def)
  have "junk other_world 0 1 \<noteq> junk lcg_world 0 1"
    by (simp add: lcg_world_def other_world_def)
  then have b: "junk other_world \<noteq> junk lcg_world"
    by metis
  from seeding_deterministic[OF a] a(3,4) b show ?thesis
    by blast
qed

lemma ddiv_formula: "ddiv a b = (if b = 0 then None else Some (a / b))"
  by (simp add: ddiv_def)

lemma candidates_fit:
  assumes "\<forall>b \<in> set bss. 1 \<le> b \<and> b < N"
  shows "\<forall>b \<in> set bss. 0 < b \<and> b \<noteq> 512 \<and> last_counter N b \<le> INT_MAX"
proof
  fix b assume "b \<in> set bss"
  then have b: "1 \<le> b" "b < N" using assms by simp_all
  then have "last_counter N b \<le> N + b - 1"
    by (intro last_counter_le) simp
  then show "0 < b \<and> b \<noteq> 512 \<and> last_counter N b \<le> INT_MAX"
    using b by (simp add: N_def INT_MAX_def)
qed

text \<open>
  Claim C4, with the condition it needs. For every list of candidate block sizes between
  \<open>1\<close> and \<open>N - 1\<close>, in whatever order, the driver returns \<open>0\<close> and the line of the \<open>k\<close>-th
  configuration records the speedup \<open>elapsed w 0 / elapsed w k\<close>: the baseline is the elapsed
  time of the configuration swept first, whichever it is. (When \<open>elapsed w k\<close> is zero the
  quotient is no number.) The first configuration's own speedup is \<open>1\<close> when its elapsed
  time is not zero; \<open>listing s ! 3\<close> is the first line after the three header lines.
  \<open>main\<close> is the case of the list \<open>block_sizes\<close>.
\<close>

theorem speedup_relative_to_first:
  assumes ok: "\<forall>k < 1539. malloc_ok w k" and fo: "fopen_ok w" and cps: "0 < clocks_per_sec w"
    and cand: "\<forall>b \<in> set bss. 1 \<le> b \<and> b < N" and len: "int (length bss) \<le> INT_MAX"
  shows "\<exists>s. driver w N bss (start_state w) = Some (Inr (0, s)) \<and>
           listing s =
             listing_headers N @
             map (\<lambda>k. Measurement (bss ! k) (elapsed w k) (bandwidth_of N (elapsed w k))
                        (if elapsed w k = 0 then None else Some (elapsed w 0 / elapsed w k)))
               [0..<length bss] @
             [Standard (elapsed w (length bss)) (bandwidth_of N (elapsed w (length bss))) 1] \<and>
           (elapsed w 0 \<noteq> 0 \<longrightarrow> bss \<noteq> [] \<longrightarrow>
              listing s ! 3 =
                Measurement (bss ! 0) (elapsed w 0) (bandwidth_of N (elapsed w 0)) (Some 1))"
proof -
  have n: "0 \<le> N" "N \<le> INT_MAX" by (simp_all add: N_def INT_MAX_def)
  have k: "\<forall>k < 3 + 3 * nat N. malloc_ok w k"
    using ok by (simp add: N_def)
  obtain s where s: "driver w N bss (start_state w) = Some (Inr (0, s))"
    "listing s = listing_headers N @ report w N bss"
    using driver_run[OF k fo n candidates_fit[OF cand] len] by blast
  have m: "measured w N bss =
      (\<lambda>k. Measurement (bss ! k) (elapsed w k) (bandwidth_of N (elapsed w k))
              (if elapsed w k = 0 then None else Some (elapsed w 0 / elapsed w k)))"
    by (rule ext) (simp add: measured_def ddiv_formula)
  have l: "listing s =
      listing_headers N @
      map (\<lambda>k. Measurement (bss ! k) (elapsed w k) (bandwidth_of N (elapsed w k))
                 (if elapsed w k = 0 then None else Some (elapsed w 0 / elapsed w k)))
        [0..<length bss] @
      [Standard (elapsed w (length bss)) (bandwidth_of N (elapsed w (length bss))) 1]"
    using s(2) by (simp add: report_def m)
  have first: "listing s ! 3 =
      Measurement (bss ! 0) (elapsed w 0) (bandwidth_of N (elapsed w 0)) (Some 1)"
    if "elapsed w 0 \<noteq> 0" "bss \<noteq> []"
  proof -
    have "[0..<length bss] = 0 # [1..<length bss]"
      using that(2) by (simp add: upt_conv_Cons)
    then show ?thesis
      using that(1) by (simp add: l listing_headers_def)
  qed
  show ?thesis
    using s(1) l first by blast
qed

theorem speedup_relative_to_first_witness:
  "fopen_ok lcg_world \<and> 0 < clocks_per_sec lcg_world \<and> elapsed lcg_world 0 \<noteq> 0 \<and>
   (\<exists>s. driver lcg_world N [256, 8, 16] (start_state lcg_world) = Some (Inr (0, s)) \<and>
      listing s =
        listing_headers N @
        [Measurement 256 1 (bandwidth_of N 1) (Some 1),
         Measurement 8 5 (bandwidth_of N 5) (Some (1 / 5)),
         Measurement 16 9 (bandwidth_of N 9) (Some (1 / 9)),
         Standard 13 (bandwidth_of N 13) 1] \<and>
      listing s ! 3 = Measurement 256 1 (bandwidth_of N 1) (Some 1))"
proof -
  have a: "\<forall>k < 1539. malloc_ok lcg_world k" "fopen_ok lcg_world"
    "0 < clocks_per_sec lcg_world"
    "\<forall>b \<in> set [256, 8, 16]. 1 \<le> b \<and> b < N" "int (length [256, 8, 16 :: int]) \<le> INT_MAX"
    by (simp_all add: lcg_world_def N_def INT_MAX_def)
  have e: "elapsed lcg_world 0 \<noteq> 0"
    by (simp add: elapsed_lcg)
  from speedup_relative_to_first[OF a] a(2,3) e show ?thesis
    by (simp add: elapsed_lcg)
qed

lemma no_clock_elapsed: "elapsed no_clock_world k = 0"
  by (simp add: elapsed_clocks no_clock_world_def)

text \<open>
  Without that condition the first speedup need not be \<open>1\<close>: when \<open>clock()\<close> returns \<open>-1\<close> at
  every call, the run of \<open>main\<close> ends normally, every elapsed time is \<open>0\<close>, and the first
  configuration's line records the quotient \<open>0 / 0\<close> as its speedup.
\<close>

theorem first_speedup_not_a_number:
  "\<exists>s. main no_clock_world = Some (Inr (0, s)) \<and>
      listing s ! 3 = Measurement 8 0 None None \<and>
      listing s ! 3 \<noteq> Measurement 8 0 None (Some 1)"
proof -
  have a: "\<forall>k < 1539. malloc_ok no_clock_world k" "fopen_ok no_clock_world"
    by (simp_all add: no_clock_world_def lcg_world_def)
  obtain s where s: "main no_clock_world = Some (Inr (0, s))"
    "listing s = listing_headers N @ report no_clock_world N block_sizes"
    using main_run[OF a] by blast
  have "listing s ! 3 = Measurement 8 0 None None"
    by (simp add: s(2) listing_headers_def report_def block_sizes_def measured_def
        no_clock_elapsed bandwidth_formula ddiv_formula upt_conv_Cons)
  then show ?thesis
    using s(1) by simp
qed



section \<open>The driver: when an allocation fails\<close>

lemma first_iteration:
  assumes "lo < hi"
  shows "for_loop lo hi step body s =
     (case body lo s of
        None \<Rightarrow> None
      | Some (Inl f) \<Rightarrow> Some (Inl f)
      | Some (Inr s') \<Rightarrow>
          (case add_int lo step of
             Inl f \<Rightarrow> Some (Inl f)
           | Inr v' \<Rightarrow> for_loop v' hi step body s'))"
  using assms by (subst for_loop.simps) simp

lemma allocate_null_table:
  assumes n: "0 < n" and s0: "tables (heap s0) = []" "mallocs s0 = 0"
    and bad: "\<not> malloc_ok w 0 \<or> \<not> malloc_ok w (Suc 0) \<or> \<not> malloc_ok w (Suc (Suc 0))"
  shows "allocate w n s0 = Some (Inl NullPointer)"
proof -
  have n': "0 < nat n" using n by simp
  have len: "[] \<noteq> replicate (nat n) Null" using n' by (cases "nat n") simp_all
  show ?thesis
  proof (cases "malloc_ok w 0")
    case False
    then show ?thesis
      unfolding allocate_def
      by (auto simp: malloc_table_def s0 and_then_def alloc_row_into_def malloc_row_def
          on_heap_def store_ptr_def Let_def first_iteration[OF n] split: prod.splits)
  next
    case ok0: True
    show ?thesis
    proof (cases "malloc_ok w (Suc 0)")
      case False
      then show ?thesis
        unfolding allocate_def using ok0 n'
        by (auto simp: malloc_table_def s0 and_then_def alloc_row_into_def malloc_row_def
            on_heap_def store_ptr_def Let_def first_iteration[OF n] split: prod.splits)
    next
      case ok1: True
      then have "\<not> malloc_ok w (Suc (Suc 0))" using bad ok0 by simp
      then show ?thesis
        unfolding allocate_def using ok0 ok1 n'
        by (auto simp: malloc_table_def s0 and_then_def alloc_row_into_def malloc_row_def
            on_heap_def store_ptr_def Let_def nth_append first_iteration[OF n]
            split: prod.splits)
    qed
  qed
qed

lemma cell_number:
  fixes c t :: nat
  assumes "c < 3"
  shows "(3 * t + c) mod 3 = c" "(3 * t + c) div 3 = t"
  using assms by simp_all

lemma cell_number_inj:
  fixes q' c t :: nat
  assumes "c < 3" "q' \<noteq> 3 * t + c"
  shows "\<not> (q' mod 3 = c \<and> q' div 3 = t)"
proof
  assume "q' mod 3 = c \<and> q' div 3 = t"
  then have "q' = 3 * t + c"
    using div_mult_mod_eq[of q' 3] by simp
  with assms(2) show False by simp
qed

lemma alloc_row_into_run:
  assumes "c < length (tables (heap s))" "0 \<le> i" "i < int (length (tables (heap s) ! c))"
  shows "alloc_row_into w n (Ptr c) i s =
     Some (Inr (if malloc_ok w (mallocs s)
       then s\<lparr>heap := \<lparr>tables = (tables (heap s))[c := (tables (heap s) ! c)[nat i := Ptr (length (rows (heap s)))]],
                          rows = rows (heap s) @ [map (junk w (mallocs s)) [0..<nat n]]\<rparr>,
                mallocs := Suc (mallocs s)\<rparr>
       else s\<lparr>heap := \<lparr>tables = (tables (heap s))[c := (tables (heap s) ! c)[nat i := Null]],
                          rows = rows (heap s)\<rparr>,
                mallocs := Suc (mallocs s)\<rparr>))"
  using assms by (simp add: alloc_row_into_def malloc_row_def on_heap_def store_ptr_def)

lemma table_update_nth:
  assumes "c < length T" "a < length T" "t < length (T ! c)"
  shows "T[c := (T ! c)[t := p]] ! a ! b = (if a = c \<and> b = t then p else T ! a ! b)"
  using assms by (cases "a = c") (simp_all add: nth_list_update)

lemma alloc_row_attempt:
  assumes inv: "rows_attempted q0 n q s" and q: "q = 3 * nat i + c" and c: "c < 3"
    and i: "0 \<le> i" "i < n"
    and least: "\<forall>k < q0. malloc_ok w (3 + k)" and bad: "\<not> malloc_ok w (3 + q0)"
  shows "\<exists>s'. alloc_row_into w n (Ptr c) i s = Some (Inr s') \<and> rows_attempted q0 n (Suc q) s'"
proof -
  let ?T = "tables (heap s)" and ?R = "rows (heap s)"
  have f: "length ?T = 3" "\<And>c. c < 3 \<Longrightarrow> length (?T ! c) = nat n"
    "\<And>q'. q' < min q q0 \<Longrightarrow> ?T ! (q' mod 3) ! (q' div 3) = Ptr q' \<and> q' < length ?R \<and>
        length (?R ! q') = nat n"
    "q0 < q \<Longrightarrow> ?T ! (q0 mod 3) ! (q0 div 3) = Null"
    "q \<le> q0 \<Longrightarrow> length ?R = q" "mallocs s = 3 + q"
    using inv by (simp_all add: rows_attempted_def)
  have ni: "nat i < nat n" using i by simp
  have pre: "c < length ?T" "0 \<le> i" "i < int (length (?T ! c))"
    using c i f(1,2) by simp_all
  have qc: "q mod 3 = c" "q div 3 = nat i"
    using cell_number[OF c, of "nat i"] q by simp_all
  have other: "\<not> (q' mod 3 = c \<and> q' div 3 = nat i)" if "q' \<noteq> q" for q'
    using cell_number_inj[OF c, of q' "nat i"] that q by simp
  have m3: "a mod 3 < 3" for a :: nat by simp
  show ?thesis
  proof (cases "malloc_ok w (mallocs s)")
    case True
    then have ne0: "q \<noteq> q0"
      using bad f(6) by auto
    let ?s' = "s\<lparr>heap := \<lparr>tables = ?T[c := (?T ! c)[nat i := Ptr (length ?R)]],
                            rows = ?R @ [map (junk w (mallocs s)) [0..<nat n]]\<rparr>,
                  mallocs := Suc (mallocs s)\<rparr>"
    have run: "alloc_row_into w n (Ptr c) i s = Some (Inr ?s')"
      using alloc_row_into_run[OF pre, of w n] True by simp
    have ent: "tables (heap ?s') ! a ! b =
        (if a = c \<and> b = nat i then Ptr (length ?R) else ?T ! a ! b)"
      if "a < 3" for a b
      using table_update_nth[of c ?T a "nat i" "Ptr (length ?R)" b] that c f(1,2) ni by simp
    have g1: "tables (heap ?s') ! (q' mod 3) ! (q' div 3) = Ptr q' \<and>
        q' < length (rows (heap ?s')) \<and> length (rows (heap ?s') ! q') = nat n"
      if "q' < min (Suc q) q0" for q'
    proof (cases "q' = q")
      case True
      then have "q < q0" using that by simp
      then have len: "length ?R = q" using f(5) by simp
      show ?thesis
        using True ent[OF m3, of q "q div 3"] qc len by (simp add: nth_append)
    next
      case False
      then have "q' < min q q0" using that by simp
      then show ?thesis
        using f(3)[of q'] ent[OF m3, of q' "q' div 3"] other[OF False] by (auto simp: nth_append)
    qed
    have "rows_attempted q0 n (Suc q) ?s'"
      unfolding rows_attempted_def
    proof (intro conjI allI impI)
      show "length (tables (heap ?s')) = 3" by (simp add: f(1))
      show "length (tables (heap ?s') ! a) = nat n" if "a < 3" for a
        using that f(1,2) by (cases "a = c") simp_all
      show "tables (heap ?s') ! (q' mod 3) ! (q' div 3) = Ptr q'" if "q' < min (Suc q) q0" for q'
        using g1[OF that] by blast
      show "q' < length (rows (heap ?s'))" if "q' < min (Suc q) q0" for q'
        using g1[OF that] by blast
      show "length (rows (heap ?s') ! q') = nat n" if "q' < min (Suc q) q0" for q'
        using g1[OF that] by blast
      show "tables (heap ?s') ! (q0 mod 3) ! (q0 div 3) = Null" if "q0 < Suc q"
      proof -
        have "q0 < q" using that ne0 by simp
        then show ?thesis
          using f(4) ent[OF m3, of q0 "q0 div 3"] other[of q0] ne0 by auto
      qed
      show "length (rows (heap ?s')) = Suc q" if "Suc q \<le> q0"
        using that f(5) by simp
      show "mallocs ?s' = 3 + Suc q" by (simp add: f(6))
    qed
    with run show ?thesis by blast
  next
    case False
    then have ge: "q0 \<le> q"
      using least f(6) by (metis not_le_imp_less)
    let ?s' = "s\<lparr>heap := \<lparr>tables = ?T[c := (?T ! c)[nat i := Null]], rows = ?R\<rparr>,
                  mallocs := Suc (mallocs s)\<rparr>"
    have run: "alloc_row_into w n (Ptr c) i s = Some (Inr ?s')"
      using alloc_row_into_run[OF pre, of w n] False by simp
    have ent: "tables (heap ?s') ! a ! b = (if a = c \<and> b = nat i then Null else ?T ! a ! b)"
      if "a < 3" for a b
      using table_update_nth[of c ?T a "nat i" Null b] that c f(1,2) ni by simp
    have "rows_attempted q0 n (Suc q) ?s'"
      unfolding rows_attempted_def
    proof (intro conjI allI impI)
      show "length (tables (heap ?s')) = 3" by (simp add: f(1))
      show "length (tables (heap ?s') ! a) = nat n" if "a < 3" for a
        using that f(1,2) by (cases "a = c") simp_all
      fix q' assume q': "q' < min (Suc q) q0"
      then have lt: "q' < min q q0" and ne: "q' \<noteq> q" using ge by simp_all
      show "tables (heap ?s') ! (q' mod 3) ! (q' div 3) = Ptr q'"
        using f(3)[OF lt] ent[OF m3, of q' "q' div 3"] other[OF ne] by auto
      show "q' < length (rows (heap ?s'))" using f(3)[OF lt] by simp
      show "length (rows (heap ?s') ! q') = nat n" using f(3)[OF lt] by simp
    next
      show "tables (heap ?s') ! (q0 mod 3) ! (q0 div 3) = Null" if "q0 < Suc q"
      proof (cases "q0 = q")
        case True
        then show ?thesis using ent[OF m3, of q "q div 3"] qc by simp
      next
        case False
        then have "q0 < q" using that by simp
        then show ?thesis
          using f(4) ent[OF m3, of q0 "q0 div 3"] other[OF False] by auto
      qed
      show "length (rows (heap ?s')) = Suc q" if "Suc q \<le> q0"
        using that ge by simp
      show "mallocs ?s' = 3 + Suc q" by (simp add: f(6))
    qed
    with run show ?thesis by blast
  qed
qed

lemma allocate_attempt:
  assumes tabs: "malloc_ok w 0" "malloc_ok w (Suc 0)" "malloc_ok w (Suc (Suc 0))"
    and n: "0 \<le> n" "n \<le> INT_MAX"
    and s0: "tables (heap s0) = []" "rows (heap s0) = []" "mallocs s0 = 0"
    and least: "\<forall>k < q0. malloc_ok w (3 + k)" and bad: "\<not> malloc_ok w (3 + q0)"
  shows "\<exists>s. allocate w n s0 = Some (Inr (Ptr 0, Ptr 1, Ptr 2, s)) \<and>
           rows_attempted q0 n (3 * nat n) s"
proof -
  let ?R = "replicate (nat n) Null"
  let ?s1 = "s0\<lparr>heap := (heap s0)\<lparr>tables := [?R]\<rparr>, mallocs := Suc 0\<rparr>"
  let ?s2 = "?s1\<lparr>heap := (heap ?s1)\<lparr>tables := [?R, ?R]\<rparr>, mallocs := Suc (Suc 0)\<rparr>"
  let ?s3 = "?s2\<lparr>heap := (heap ?s2)\<lparr>tables := [?R, ?R, ?R]\<rparr>, mallocs := Suc (Suc (Suc 0))\<rparr>"
  have m1: "malloc_table w n s0 = (Ptr 0, ?s1)"
    using tabs(1) by (simp add: malloc_table_ok s0)
  have m2: "malloc_table w n ?s1 = (Ptr 1, ?s2)"
    using tabs(2) by (simp add: malloc_table_ok s0)
  have m3: "malloc_table w n ?s2 = (Ptr 2, ?s3)"
    using tabs(3) by (simp add: malloc_table_ok s0)
  have init: "rows_attempted q0 n (3 * nat 0) ?s3"
    by (simp add: rows_attempted_def s0 nth_Cons' less_Suc_eq)
  let ?body = "\<lambda>i s. and_then (alloc_row_into w n (Ptr 0) i s) (\<lambda>s.
      and_then (alloc_row_into w n (Ptr 1) i s) (\<lambda>s. alloc_row_into w n (Ptr 2) i s))"
  have step: "\<exists>t'. ?body i t = Some (Inr t') \<and> rows_attempted q0 n (3 * nat (i + 1)) t'"
    if i: "0 \<le> i \<and> i < n \<and> rows_attempted q0 n (3 * nat i) t" for i t
  proof -
    obtain ta where ta: "alloc_row_into w n (Ptr 0) i t = Some (Inr ta)"
      "rows_attempted q0 n (Suc (3 * nat i + 0)) ta"
      using alloc_row_attempt[of q0 n "3 * nat i + 0" t i 0 w] i least bad by auto
    obtain tb where tb: "alloc_row_into w n (Ptr 1) i ta = Some (Inr tb)"
      "rows_attempted q0 n (Suc (Suc (3 * nat i + 0))) tb"
      using alloc_row_attempt[of q0 n "Suc (3 * nat i + 0)" ta i 1 w] i least bad ta(2) by auto
    obtain tc where tc: "alloc_row_into w n (Ptr 2) i tb = Some (Inr tc)"
      "rows_attempted q0 n (Suc (Suc (Suc (3 * nat i + 0)))) tc"
      using alloc_row_attempt[of q0 n "Suc (Suc (3 * nat i + 0))" tb i 2 w] i least bad tb(2)
      by auto
    have "Suc (Suc (Suc (3 * nat i + 0))) = 3 * nat (i + 1)"
      using i by (simp add: nat_add_distrib)
    then have "rows_attempted q0 n (3 * nat (i + 1)) tc"
      using tc(2) by simp
    moreover have "?body i t = Some (Inr tc)"
      by (simp only: ta(1) tb(1) tc(1) and_then_ok)
    ultimately show ?thesis by blast
  qed
  have "\<exists>s'. for_loop 0 n 1 ?body ?s3 = Some (Inr s') \<and> rows_attempted q0 n (3 * nat n) s'"
    by (rule unit_loop_invariant[where Inv = "\<lambda>i. rows_attempted q0 n (3 * nat i)", OF n init])
       (use step in blast)
  then obtain s where s: "for_loop 0 n 1 ?body ?s3 = Some (Inr s)"
    "rows_attempted q0 n (3 * nat n) s"
    by blast
  have "allocate w n s0 = Some (Inr (Ptr 0, Ptr 1, Ptr 2, s))"
    by (simp only: allocate_def m1 m2 m3 prod.case s(1) and_then_ok ok_def)
  with s(2) show ?thesis by blast
qed

lemma write_ok:
  assumes "row_ok m n M i" "0 \<le> j" "j < n"
  shows "\<exists>m'. write2 m M i j v = Inr m' \<and> shape m m'"
proof -
  obtain r where r: "load_ptr m M i = Inr (Ptr r)" "r < length (rows m)"
    "int (length (rows m ! r)) = n"
    using assms(1) by (auto simp: row_ok_def split: sum.splits ptr.splits)
  have "write2 m M i j v = Inr (poke m r j v)"
    using r assms(2,3) by (simp add: write2_def store_elem_def poke_def)
  then show ?thesis
    using shape_poke[of m r j v] by blast
qed

lemma write_null:
  assumes "row_null m M i"
  shows "write2 m M i j v = Inl NullPointer"
  using assms by (simp add: row_null_def write2_def store_elem_def)

lemma shape_load_ptr: "shape m m' \<Longrightarrow> load_ptr m' M i = load_ptr m M i"
  by (simp add: shape_def load_ptr_def split: ptr.splits)

lemma shape_row_ok:
  assumes "shape m m'"
  shows "row_ok m' n M i = row_ok m n M i"
  using assms by (simp add: row_ok_def shape_load_ptr[OF assms] shape_def split: sum.splits ptr.splits)

lemma shape_row_null:
  assumes "shape m m'"
  shows "row_null m' M i = row_null m M i"
  by (simp add: row_null_def shape_load_ptr[OF assms])

lemma assign_random_ok:
  assumes "row_ok (heap s) n M i" "0 \<le> j" "j < n"
  shows "\<exists>s'. assign_random w M i j s = Some (Inr s') \<and> shape (heap s) (heap s')"
proof -
  obtain m' where "write2 (heap s) M i j (seed_value (fst (rand_next w (rng s)))) = Inr m'"
    "shape (heap s) m'"
    using write_ok[OF assms] by blast
  then show ?thesis
    using assign_random_run[of s M i j w m'] by simp
qed

lemma assign_ok:
  assumes "row_ok (heap s) n M i" "0 \<le> j" "j < n"
  shows "\<exists>s'. assign M i j v s = Some (Inr s') \<and> shape (heap s) (heap s')"
proof -
  obtain m' where "write2 (heap s) M i j v = Inr m'" "shape (heap s) m'"
    using write_ok[OF assms] by blast
  then show ?thesis
    using assign_run[of s M i j v m'] by simp
qed

lemma assign_random_null:
  assumes "row_null (heap s) M i"
  shows "assign_random w M i j s = Some (Inl NullPointer)"
  using write_null[OF assms] by (simp add: assign_random_def c_rand_def assign_def on_heap_def)

lemma assign_null:
  assumes "row_null (heap s) M i"
  shows "assign M i j v s = Some (Inl NullPointer)"
  using write_null[OF assms] by (simp add: assign_def on_heap_def)

lemma seed_cell_returns:
  assumes A: "row_ok (heap s) n A i" and B: "row_ok (heap s) n B i" and C: "row_ok (heap s) n C i"
    and j: "0 \<le> j" "j < n"
  shows "\<exists>s'. and_then (assign_random w A i j s) (\<lambda>s.
                and_then (assign_random w B i j s) (\<lambda>s. assign C i j 0 s)) = Some (Inr s') \<and>
           shape (heap s) (heap s')"
proof -
  obtain s1 where s1: "assign_random w A i j s = Some (Inr s1)" "shape (heap s) (heap s1)"
    using assign_random_ok[OF A j] by blast
  have B1: "row_ok (heap s1) n B i" using B by (simp add: shape_row_ok[OF s1(2)])
  obtain s2 where s2: "assign_random w B i j s1 = Some (Inr s2)" "shape (heap s1) (heap s2)"
    using assign_random_ok[OF B1 j] by blast
  have C2: "row_ok (heap s2) n C i"
    using C by (simp add: shape_row_ok[OF s1(2)] shape_row_ok[OF s2(2)])
  obtain s3 where s3: "assign C i j 0 s2 = Some (Inr s3)" "shape (heap s2) (heap s3)"
    using assign_ok[OF C2 j] by blast
  have "and_then (assign_random w A i j s) (\<lambda>s.
      and_then (assign_random w B i j s) (\<lambda>s. assign C i j 0 s)) = Some (Inr s3)"
    by (simp only: s1(1) s2(1) s3(1) and_then_ok)
  then show ?thesis
    using shape_trans[OF shape_trans[OF s1(2) s2(2)] s3(2)] by blast
qed

lemma seed_cell_faults:
  assumes bad: "row_null (heap s) A i \<or>
      (row_ok (heap s) n A i \<and> row_null (heap s) B i) \<or>
      (row_ok (heap s) n A i \<and> row_ok (heap s) n B i \<and> row_null (heap s) C i)"
    and j: "0 \<le> j" "j < n"
  shows "and_then (assign_random w A i j s) (\<lambda>s.
           and_then (assign_random w B i j s) (\<lambda>s. assign C i j 0 s)) = Some (Inl NullPointer)"
proof -
  consider (a) "row_null (heap s) A i"
    | (b) "row_ok (heap s) n A i" "row_null (heap s) B i"
    | (c) "row_ok (heap s) n A i" "row_ok (heap s) n B i" "row_null (heap s) C i"
    using bad by blast
  then show ?thesis
  proof cases
    case a
    show ?thesis
      by (simp only: assign_random_null[OF a] and_then_fault)
  next
    case b
    obtain s1 where s1: "assign_random w A i j s = Some (Inr s1)" "shape (heap s) (heap s1)"
      using assign_random_ok[OF b(1) j] by blast
    have "row_null (heap s1) B i" using b(2) by (simp add: shape_row_null[OF s1(2)])
    then show ?thesis
      by (simp only: s1(1) and_then_ok assign_random_null and_then_fault)
  next
    case c
    obtain s1 where s1: "assign_random w A i j s = Some (Inr s1)" "shape (heap s) (heap s1)"
      using assign_random_ok[OF c(1) j] by blast
    have B1: "row_ok (heap s1) n B i" using c(2) by (simp add: shape_row_ok[OF s1(2)])
    obtain s2 where s2: "assign_random w B i j s1 = Some (Inr s2)" "shape (heap s1) (heap s2)"
      using assign_random_ok[OF B1 j] by blast
    have "row_null (heap s2) C i"
      using c(3) by (simp add: shape_row_null[OF s1(2)] shape_row_null[OF s2(2)])
    then show ?thesis
      by (simp only: s1(1) s2(1) and_then_ok assign_null)
  qed
qed

lemma unit_loop_fault:
  assumes t0: "0 \<le> t0" "t0 < n" and n: "n \<le> INT_MAX" and init: "Inv 0 s"
    and step: "\<forall>i t. 0 \<le> i \<and> i < t0 \<and> Inv i t \<longrightarrow>
       (\<exists>t'. body i t = Some (Inr t') \<and> Inv (i + 1) t')"
    and stop: "\<forall>t. Inv t0 t \<longrightarrow> body t0 t = Some (Inl f)"
  shows "for_loop 0 n 1 body s = Some (Inl f)"
proof -
  have "\<exists>s'. run_list body [0..t0 - 1] s = Some (Inr s') \<and> Inv (t0 - 1 + 1) s'"
    using t0(1) init step by (intro run_upto_invariant) simp_all
  then obtain s' where s': "run_list body [0..t0 - 1] s = Some (Inr s')" "Inv t0 s'"
    by auto
  have split: "[0..n - 1] = [0..t0 - 1] @ t0 # [t0 + 1..n - 1]"
    using t0 by (intro upto_split3) simp_all
  have "run_list body [0..n - 1] s = Some (Inl f)"
    unfolding split run_list_append
    using s' stop by simp
  then show ?thesis
    by (simp add: unit_loop_unroll[OF n] loop_values_unit)
qed

lemma seed_faults:
  fixes s :: "'g state" and w :: "'g world"
  assumes n: "n \<le> INT_MAX" and t0: "0 \<le> t0" "t0 < n"
    and good: "\<forall>i. 0 \<le> i \<and> i < t0 \<longrightarrow>
       row_ok (heap s) n A i \<and> row_ok (heap s) n B i \<and> row_ok (heap s) n C i"
    and bad: "row_null (heap s) A t0 \<or>
      (row_ok (heap s) n A t0 \<and> row_null (heap s) B t0) \<or>
      (row_ok (heap s) n A t0 \<and> row_ok (heap s) n B t0 \<and> row_null (heap s) C t0)"
  shows "seed w A B C n s = Some (Inl NullPointer)"
proof -
  let ?cell = "\<lambda>i j s. and_then (assign_random w A i j s) (\<lambda>s.
      and_then (assign_random w B i j s) (\<lambda>s. assign C i j 0 s))"
  let ?s = "s\<lparr>rng := srand_state w 42\<rparr>"
  let ?Inv = "\<lambda>t :: 'g state. shape (heap s) (heap t)"
  have n0: "0 \<le> n" "0 < n" using t0 by simp_all
  have row: "\<exists>t'. for_loop 0 n 1 (?cell i) t = Some (Inr t') \<and> ?Inv t'"
    if i: "0 \<le> i \<and> i < t0 \<and> ?Inv t" for i t
  proof (rule unit_loop_invariant[where Inv = "\<lambda>j. ?Inv", OF n0(1) n])
    show "?Inv t" using i by simp
    show "\<forall>j u. 0 \<le> j \<and> j < n \<and> ?Inv u \<longrightarrow> (\<exists>t'. ?cell i j u = Some (Inr t') \<and> ?Inv t')"
    proof (intro allI impI)
      fix j and u :: "'g state" assume h: "0 \<le> j \<and> j < n \<and> ?Inv u"
      then have sh: "shape (heap s) (heap u)" by simp
      have "row_ok (heap u) n A i" "row_ok (heap u) n B i" "row_ok (heap u) n C i"
        using good i by (simp_all add: shape_row_ok[OF sh])
      then obtain t' where "?cell i j u = Some (Inr t')" "shape (heap u) (heap t')"
        using seed_cell_returns[of u n A i B C j w] h by blast
      then show "\<exists>t'. ?cell i j u = Some (Inr t') \<and> ?Inv t'"
        using shape_trans[OF sh] by blast
    qed
  qed
  have stop: "for_loop 0 n 1 (?cell t0) t = Some (Inl NullPointer)" if "?Inv t" for t
  proof -
    have "row_null (heap t) A t0 \<or>
        (row_ok (heap t) n A t0 \<and> row_null (heap t) B t0) \<or>
        (row_ok (heap t) n A t0 \<and> row_ok (heap t) n B t0 \<and> row_null (heap t) C t0)"
      using bad by (simp add: shape_row_ok[OF that] shape_row_null[OF that])
    then have "?cell t0 0 t = Some (Inl NullPointer)"
      using n0(2) by (intro seed_cell_faults) simp_all
    then show ?thesis
      by (simp add: first_iteration[OF n0(2)])
  qed
  have "for_loop 0 n 1 (\<lambda>i. for_loop 0 n 1 (?cell i)) ?s = Some (Inl NullPointer)"
  proof (rule unit_loop_fault[where Inv = "\<lambda>i. ?Inv", OF t0 n])
    show "?Inv ?s" by (simp add: shape_refl)
    show "\<forall>i t. 0 \<le> i \<and> i < t0 \<and> ?Inv t \<longrightarrow>
        (\<exists>t'. for_loop 0 n 1 (?cell i) t = Some (Inr t') \<and> ?Inv t')"
      using row by blast
    show "\<forall>t. ?Inv t \<longrightarrow> for_loop 0 n 1 (?cell t0) t = Some (Inl NullPointer)"
      using stop by blast
  qed
  then show ?thesis
    by (simp add: seed_def)
qed

lemma attempted_load:
  assumes a: "rows_attempted q0 n q s" and c: "c < 3" and i: "0 \<le> i" "i < n"
  shows "load_ptr (heap s) (Ptr c) i = Inr (tables (heap s) ! c ! nat i)"
proof -
  have "length (tables (heap s)) = 3" "length (tables (heap s) ! c) = nat n"
    using a c by (simp_all add: rows_attempted_def)
  then show ?thesis
    using c i by (simp add: load_ptr_def)
qed

lemma attempted_row_ok:
  assumes a: "rows_attempted q0 n q s" and c: "c < 3" and i: "0 \<le> i" "i < n"
    and lt: "3 * nat i + c < min q q0"
  shows "row_ok (heap s) n (Ptr c) i"
proof -
  have "\<forall>q' < min q q0.
      tables (heap s) ! (q' mod 3) ! (q' div 3) = Ptr q' \<and>
      q' < length (rows (heap s)) \<and> length (rows (heap s) ! q') = nat n"
    using a unfolding rows_attempted_def by blast
  then have "tables (heap s) ! ((3 * nat i + c) mod 3) ! ((3 * nat i + c) div 3) =
      Ptr (3 * nat i + c) \<and>
      3 * nat i + c < length (rows (heap s)) \<and>
      length (rows (heap s) ! (3 * nat i + c)) = nat n"
    using lt by blast
  then have "tables (heap s) ! c ! nat i = Ptr (3 * nat i + c)"
    "3 * nat i + c < length (rows (heap s))"
    "length (rows (heap s) ! (3 * nat i + c)) = nat n"
    unfolding cell_number[OF c, of "nat i"] by blast+
  then show ?thesis
    using attempted_load[OF a c i] i by (simp add: row_ok_def)
qed

lemma attempted_row_null:
  assumes a: "rows_attempted q0 n q s" and c: "c < 3" and i: "0 \<le> i" "i < n"
    and q0: "q0 = 3 * nat i + c" "q0 < q"
  shows "row_null (heap s) (Ptr c) i"
proof -
  have "tables (heap s) ! (q0 mod 3) ! (q0 div 3) = Null"
    using a q0(2) by (simp add: rows_attempted_def)
  then have "tables (heap s) ! c ! nat i = Null"
    using cell_number[OF c, of "nat i"] q0(1) by simp
  then show ?thesis
    using attempted_load[OF a c i] by (simp add: row_null_def)
qed

lemma prepare_row_failure:
  assumes tabs: "malloc_ok w 0" "malloc_ok w (Suc 0)" "malloc_ok w (Suc (Suc 0))"
    and n: "0 \<le> n" "n \<le> INT_MAX"
    and s0: "tables (heap s0) = []" "rows (heap s0) = []" "mallocs s0 = 0"
    and least: "\<forall>k < q0. malloc_ok w (3 + k)" and bad: "\<not> malloc_ok w (3 + q0)"
    and q0: "q0 < 3 * nat n"
  shows "prepare w n s0 = Some (Inl NullPointer)"
proof -
  obtain s where s: "allocate w n s0 = Some (Inr (Ptr 0, Ptr 1, Ptr 2, s))"
    "rows_attempted q0 n (3 * nat n) s"
    using allocate_attempt[OF tabs n s0 least bad] by blast
  define t0 where "t0 = int (q0 div 3)"
  define c0 where "c0 = q0 mod 3"
  have t0: "0 \<le> t0" "t0 < n" "nat t0 = q0 div 3"
    using q0 by (simp_all add: t0_def)
  have c0: "c0 < 3" "q0 = 3 * nat t0 + c0"
    by (simp_all add: c0_def t0(3))
  have mn: "min (3 * nat n) q0 = q0" using q0 by simp
  have ok_row: "row_ok (heap s) n (Ptr c) i" if "c < 3" "0 \<le> i" "i < n" "3 * nat i + c < q0" for c i
    using attempted_row_ok[OF s(2) that(1,2,3)] that(4) mn by simp
  have null_row: "row_null (heap s) (Ptr c0) t0"
    by (rule attempted_row_null[OF s(2) c0(1) t0(1,2) c0(2) q0])
  have good: "\<forall>i. 0 \<le> i \<and> i < t0 \<longrightarrow>
      row_ok (heap s) n (Ptr 0) i \<and> row_ok (heap s) n (Ptr 1) i \<and> row_ok (heap s) n (Ptr 2) i"
  proof (intro allI impI)
    fix i assume i: "0 \<le> i \<and> i < t0"
    then have "nat i < nat t0" by auto
    then have "3 * nat i + 3 \<le> 3 * nat t0" by linarith
    then have lt: "3 * nat i + c < q0" if "c < 3" for c
      using that c0(2) by simp
    have "i < n" using i t0(2) by simp
    then show "row_ok (heap s) n (Ptr 0) i \<and> row_ok (heap s) n (Ptr 1) i \<and>
        row_ok (heap s) n (Ptr 2) i"
      using ok_row[of 0 i] ok_row[of 1 i] ok_row[of 2 i] lt[of 0] lt[of 1] lt[of 2] i by simp
  qed
  have "c0 = 0 \<or> c0 = 1 \<or> c0 = 2" using c0(1) by auto
  then have stop: "row_null (heap s) (Ptr 0) t0 \<or>
      (row_ok (heap s) n (Ptr 0) t0 \<and> row_null (heap s) (Ptr 1) t0) \<or>
      (row_ok (heap s) n (Ptr 0) t0 \<and> row_ok (heap s) n (Ptr 1) t0 \<and>
       row_null (heap s) (Ptr 2) t0)"
  proof (elim disjE)
    assume "c0 = 0"
    then show ?thesis using null_row by simp
  next
    assume c: "c0 = 1"
    have "row_ok (heap s) n (Ptr 0) t0"
      using ok_row[of 0 t0] t0(1,2) c0(2) c by simp
    then show ?thesis using null_row c by simp
  next
    assume c: "c0 = 2"
    have "row_ok (heap s) n (Ptr 0) t0" "row_ok (heap s) n (Ptr 1) t0"
      using ok_row[of 0 t0] ok_row[of 1 t0] t0(1,2) c0(2) c by simp_all
    then show ?thesis using null_row c by simp
  qed
  have "seed w (Ptr 0) (Ptr 1) (Ptr 2) n s = Some (Inl NullPointer)"
    by (rule seed_faults[OF n(2) t0(1,2) good stop])
  then show ?thesis
    by (simp only: prepare_def s(1) and_then_ok prod.case and_then_fault)
qed

text \<open>
  Claim C6 is not what the code does. \<open>main\<close> never tests what \<open>malloc\<close> returns. When any
  of its \<open>1539\<close> allocations fails (the three row-pointer tables, then the \<open>3 * 512\<close> rows),
  the run stops in undefined behaviour at a store through a null pointer: in the first
  iteration of the allocation loop when a table is missing, and otherwise in the seeding
  loop at the first element of the first missing row. It prints no diagnostic and does
  not reach \<open>exit\<close>: the outcome is the fault, not an exit status.
\<close>

theorem allocation_failure_is_unchecked:
  assumes "\<exists>k < 1539. \<not> malloc_ok w k"
  shows "main w = Some (Inl NullPointer)"
proof (cases "malloc_ok w 0 \<and> malloc_ok w (Suc 0) \<and> malloc_ok w (Suc (Suc 0))")
  case False
  then have "allocate w N (start_state w) = Some (Inl NullPointer)"
    by (intro allocate_null_table) (auto simp: N_def start_state_def)
  then show ?thesis
    by (simp add: main_def driver_def prepare_def and_then_fault)
next
  case True
  obtain k where k: "k < 1539" "\<not> malloc_ok w k"
    using assms by blast
  have "k \<noteq> 0" "k \<noteq> Suc 0" "k \<noteq> Suc (Suc 0)"
    using True k(2) by (auto intro: ccontr)
  then have k3: "3 \<le> k" by simp
  then have b: "\<not> malloc_ok w (3 + (k - 3))" using k(2) by simp
  define q0 where "q0 = (LEAST q. \<not> malloc_ok w (3 + q))"
  have bad: "\<not> malloc_ok w (3 + q0)"
    unfolding q0_def using b by (rule LeastI)
  have least: "\<forall>q < q0. malloc_ok w (3 + q)"
    unfolding q0_def using not_less_Least by blast
  have "q0 \<le> k - 3"
    unfolding q0_def using b by (rule Least_le)
  then have q0: "q0 < 3 * nat N" using k(1) k3 by (simp add: N_def)
  have "prepare w N (start_state w) = Some (Inl NullPointer)"
    using True
    by (intro prepare_row_failure[OF _ _ _ _ _ _ _ _ least bad q0])
       (simp_all add: N_def INT_MAX_def start_state_def)
  then show ?thesis
    by (simp add: main_def driver_def and_then_fault)
qed

theorem allocation_failure_is_unchecked_witness:
  "\<not> malloc_ok out_of_memory_world 1000 \<and> main out_of_memory_world = Some (Inl NullPointer)"
proof -
  have a: "\<not> malloc_ok out_of_memory_world 1000"
    by (simp add: out_of_memory_world_def)
  then have "\<exists>k < 1539. \<not> malloc_ok out_of_memory_world k"
    by (intro exI[of _ 1000]) simp
  from allocation_failure_is_unchecked[OF this] a show ?thesis
    by simp
qed

end
